theory Spec2Isabelle
  imports Main "HOL-Library.Signed_Division"
begin

section \<open>The IR data model\<close>

text \<open>
  The pass \<open>AllReduceScatterCreator::Run\<close> of
  \<open>gpu_all_reduce_scatter_creator.cc\<close> works on an HLO module through the IR library.
  Instructions are addressed by stable handles (natural numbers) that stand for the
  \<open>HloInstruction *\<close> pointers of the source.
\<close>

datatype HloOpcode =
    kAllReduce | kAllReduceScatter | kReshape | kDynamicSlice
  | kParameter | kConstant | kIota | kReplicaId | kPartitionId
  | kConvert | kMultiply | kAdd | kOther

datatype PrimitiveType = F32 | S32 | U32

record Shape =
  element_type :: PrimitiveType
  dimensions :: "int list"
  layout :: "nat list option"

record HloInstruction =
  opcode :: HloOpcode
  shape :: Shape
  operands :: "nat list"
  to_apply :: "nat option"
  replica_groups :: "int list list"
  constrain_layout :: bool
  channel_id :: "int option"
  use_global_device_ids :: bool
  scatter_dimension :: "int option"
  literal :: "int list"

record HloComputation =
  instructions :: "(nat \<times> HloInstruction) list"
  root_instruction :: nat
  next_handle :: nat
  IsFusionComputation :: bool

record HloModuleConfig =
  num_partitions :: int
  replica_count :: int

record HloModule =
  computations :: "HloComputation list"
  config :: HloModuleConfig

text \<open>
  Outcomes of the fallible operations. \<open>Internal\<close> is the status a failed
  \<open>TF_RET_CHECK\<close> returns. \<open>Undefined\<close> stands for the executions C++ gives no
  meaning to and the machine gives no fixed result (reading a dimension out of range,
  dividing by zero, following a handle that names no instruction).
\<close>

datatype error = Internal | Undefined

type_synonym Status = "error option"

record AllReduceScatterSpec =
  split_dim :: int
  group_size :: int
  dynamic_slice :: nat

text \<open>
  \<open>MatchAllReduceScatter\<close> is declared in \<open>all_reduce_scatter_utils.h\<close>; the pass
  calls it with the all-reduce, the partition and replica counts and the two flags, and
  it answers with a specification or with nothing. The pass is modelled for an arbitrary
  such function; the all-reduce is passed as its computation and its handle.
\<close>

type_synonym matcher =
  "HloComputation \<Rightarrow> nat \<Rightarrow> int \<Rightarrow> int \<Rightarrow> bool \<Rightarrow> bool \<Rightarrow> AllReduceScatterSpec option"

section \<open>Integers of the source\<close>


definition INT64_MIN :: int where
  "INT64_MIN = - (2 ^ 63)"

text \<open>
  \<open>x++\<close> on an \<open>int64\<close> has no guard in the source. C++ gives an overflowing
  increment no meaning; the model takes what the machine does, the wrap-around of two's
  complement, so that \<open>INT64_MIN\<close> follows \<open>INT64_MAX\<close>.
\<close>

definition int64_wrap :: "int \<Rightarrow> int" where
  "int64_wrap x = (x + 2 ^ 63) mod 2 ^ 64 - 2 ^ 63"

text \<open>
  \<open>a % b\<close> and \<open>a / b\<close> on \<open>int64\<close>: truncation towards zero, undefined for a zero
  divisor and for \<open>INT64_MIN / -1\<close>.
\<close>

definition int64_rem :: "int \<Rightarrow> int \<Rightarrow> int option" where
  "int64_rem a b =
     (if b = 0 \<or> (a = INT64_MIN \<and> b = - 1) then None else Some (a smod b))"

definition int64_div :: "int \<Rightarrow> int \<Rightarrow> int option" where
  "int64_div a b =
     (if b = 0 \<or> (a = INT64_MIN \<and> b = - 1) then None else Some (a sdiv b))"

text \<open>\<open>Shape::dimensions(index)\<close> and \<open>Shape::set_dimensions(index, value)\<close>.\<close>

definition dimension :: "Shape \<Rightarrow> int \<Rightarrow> int option" where
  "dimension s d =
     (if 0 \<le> d \<and> d < int (length (dimensions s)) then Some (dimensions s ! nat d)
      else None)"

definition set_dimensions :: "Shape \<Rightarrow> int \<Rightarrow> int \<Rightarrow> Shape" where
  "set_dimensions s d v = s\<lparr>dimensions := (dimensions s)[nat d := v]\<rparr>"

section \<open>The IR library\<close>

text \<open>
  Modelled from the spec: the IR library (\<open>HloComputation\<close>, \<open>HloInstruction\<close>,
  \<open>hlo_query\<close>) is not part of the sources at hand. The spec describes it as an arena of
  nodes addressed by stable handles with def-use edges (section 9), offering instruction
  construction with explicit shapes, def-use edge maintenance, safe removal with
  dead-operand pruning, a postorder listing and a query for the largest channel id in use
  (section 6). A use of an instruction is an operand reference to it or its designation
  as the root of its computation: replacing all uses of the root moves the root, as the
  tests of the pass observe, and an instruction that still has a use is not removed.
\<close>

definition find_instruction :: "HloComputation \<Rightarrow> nat \<Rightarrow> HloInstruction option" where
  "find_instruction c h = map_of (instructions c) h"

definition users :: "HloComputation \<Rightarrow> nat \<Rightarrow> nat list" where
  "users c h = map fst (filter (\<lambda>(u, i). h \<in> set (operands i)) (instructions c))"

definition user_count :: "HloComputation \<Rightarrow> nat \<Rightarrow> nat" where
  "user_count c h = length (users c h)"

definition has_uses :: "HloComputation \<Rightarrow> nat \<Rightarrow> bool" where
  "has_uses c h \<longleftrightarrow> users c h \<noteq> [] \<or> root_instruction c = h"

definition CreateAllReduceScatter ::
  "Shape \<Rightarrow> nat list \<Rightarrow> nat option \<Rightarrow> int list list \<Rightarrow> bool \<Rightarrow> int option \<Rightarrow> bool \<Rightarrow> int
     \<Rightarrow> HloInstruction" where
  "CreateAllReduceScatter s ops reduce_computation groups constrain channel global dim =
     \<lparr>opcode = kAllReduceScatter, shape = s, operands = ops,
      to_apply = reduce_computation, replica_groups = groups,
      constrain_layout = constrain, channel_id = channel,
      use_global_device_ids = global, scatter_dimension = Some dim, literal = []\<rparr>"

definition CreateReshape :: "Shape \<Rightarrow> nat \<Rightarrow> HloInstruction" where
  "CreateReshape s operand =
     \<lparr>opcode = kReshape, shape = s, operands = [operand],
      to_apply = None, replica_groups = [], constrain_layout = False, channel_id = None,
      use_global_device_ids = False, scatter_dimension = None, literal = []\<rparr>"

definition add_instruction :: "HloComputation \<Rightarrow> HloInstruction \<Rightarrow> HloComputation" where
  "add_instruction c i =
     c\<lparr>instructions := instructions c @ [(next_handle c, i)],
       next_handle := Suc (next_handle c)\<rparr>"

definition AddInstruction :: "HloComputation \<Rightarrow> HloInstruction \<Rightarrow> nat \<times> HloComputation" where
  "AddInstruction c i = (next_handle c, add_instruction c i)"

definition replace_operand :: "nat \<Rightarrow> nat \<Rightarrow> HloInstruction \<Rightarrow> HloInstruction" where
  "replace_operand old new i =
     i\<lparr>operands := map (\<lambda>x. if x = old then new else x) (operands i)\<rparr>"

definition replace_uses :: "HloComputation \<Rightarrow> nat \<Rightarrow> nat \<Rightarrow> HloComputation" where
  "replace_uses c old new =
     c\<lparr>instructions := map (\<lambda>(h, i). (h, replace_operand old new i)) (instructions c),
       root_instruction := (if root_instruction c = old then new else root_instruction c)\<rparr>"

definition ReplaceAllUsesWith :: "HloComputation \<Rightarrow> nat \<Rightarrow> nat \<Rightarrow> Status \<times> HloComputation" where
  "ReplaceAllUsesWith c old new =
     (if find_instruction c old = None \<or> find_instruction c new = None
      then (Some Undefined, c)
      else (None, replace_uses c old new))"

definition erase :: "HloComputation \<Rightarrow> nat \<Rightarrow> HloComputation" where
  "erase c h = c\<lparr>instructions := filter (\<lambda>(k, i). k \<noteq> h) (instructions c)\<rparr>"

definition RemoveInstruction :: "HloComputation \<Rightarrow> nat \<Rightarrow> Status \<times> HloComputation" where
  "RemoveInstruction c h =
     (if find_instruction c h = None \<or> has_uses c h then (Some Internal, c)
      else (None, erase c h))"

lemma erase_shrinks:
  "find_instruction c h = Some i \<Longrightarrow>
   length (instructions (erase c h)) < length (instructions c)"
proof -
  assume "find_instruction c h = Some i"
  then have "(h, i) \<in> set (instructions c)"
    by (simp add: find_instruction_def map_of_SomeD)
  then show ?thesis
    by (auto simp: erase_def intro: length_filter_less)
qed

text \<open>
  Dead-operand pruning: the work list holds the instructions to look at; one that is
  still present and has no use left is removed, and its operands are looked at in turn.
\<close>

function prune :: "nat list \<Rightarrow> HloComputation \<Rightarrow> HloComputation" where
  "prune [] c = c"
| "prune (w # ws) c =
     (case find_instruction c w of
        None \<Rightarrow> prune ws c
      | Some i \<Rightarrow>
          if has_uses c w then prune ws c
          else prune (ws @ operands i) (erase c w))"
  by pat_completeness auto
termination
  by (relation "measures [\<lambda>(ws, c). length (instructions c), \<lambda>(ws, c). length ws]")
     (auto simp: erase_shrinks)

definition RemoveInstructionAndUnusedOperands ::
  "HloComputation \<Rightarrow> nat \<Rightarrow> Status \<times> HloComputation" where
  "RemoveInstructionAndUnusedOperands c h =
     (if find_instruction c h = None \<or> has_uses c h then (Some Internal, c)
      else (None, prune [h] c))"

text \<open>
  The postorder listing: a depth-first walk from every instruction that lists an
  instruction after its operands. The walk is bounded by the number of instructions,
  which is the length of the longest path of an acyclic graph.
\<close>

fun post_order_visit :: "nat \<Rightarrow> HloComputation \<Rightarrow> nat \<Rightarrow> nat list \<Rightarrow> nat list" where
  "post_order_visit 0 c h visited = visited"
| "post_order_visit (Suc fuel) c h visited =
     (if h \<in> set visited then visited
      else case find_instruction c h of
        None \<Rightarrow> visited
      | Some i \<Rightarrow> fold (post_order_visit fuel c) (operands i) visited @ [h])"

definition MakeInstructionPostOrder :: "HloComputation \<Rightarrow> nat list" where
  "MakeInstructionPostOrder c =
     fold (post_order_visit (length (instructions c)) c) (map fst (instructions c)) []"

definition MakeNonfusionComputations :: "HloModule \<Rightarrow> nat list" where
  "MakeNonfusionComputations m =
     filter (\<lambda>k. \<not> IsFusionComputation (computations m ! k)) [0..<length (computations m)]"

definition channel_ids :: "HloComputation \<Rightarrow> int list" where
  "channel_ids c = concat (map (\<lambda>(h, i). case channel_id i of None \<Rightarrow> [] | Some k \<Rightarrow> [k])
                               (instructions c))"

definition module_channel_ids :: "HloModule \<Rightarrow> int list" where
  "module_channel_ids m = concat (map channel_ids (computations m))"

definition NextChannelId :: "HloModule \<Rightarrow> int" where
  "NextChannelId m = fold (\<lambda>k n. max n (k + 1)) (module_channel_ids m) 1"

section \<open>The pass\<close>

text \<open>
  The state the loops of \<open>Run\<close> carry: the computation being rewritten, the counter
  \<open>next_channel_id\<close> and the flag \<open>changed\<close>. The module is mutated in place in the
  source, so a failing step returns the state it has reached together with the error.
\<close>

record RunState =
  comp :: HloComputation
  next_channel_id :: int
  changed :: bool

text \<open>
  \<open>TF_RETURN_IF_ERROR\<close>: a failed call ends the enclosing function with the state
  reached so far; otherwise the rest runs on the new state.
\<close>

definition and_then ::
  "Status \<times> HloComputation \<Rightarrow> (HloComputation \<Rightarrow> Status \<times> HloComputation)
     \<Rightarrow> Status \<times> HloComputation" where
  "and_then r f = (case r of (Some e, c) \<Rightarrow> (Some e, c) | (None, c) \<Rightarrow> f c)"

text \<open>
  Lines 88 to 93 of the source: the uses of the dynamic slice \<open>ds\<close> move to \<open>result\<close>,
  then \<open>ds\<close>, the intervening reshape if there is one, and the all-reduce \<open>ar\<close> are
  removed, in this order.
\<close>

definition RemoveDead ::
  "HloComputation \<Rightarrow> nat \<Rightarrow> nat option \<Rightarrow> nat \<Rightarrow> nat \<Rightarrow> Status \<times> HloComputation" where
  "RemoveDead c ds reshape ar result =
     and_then (ReplaceAllUsesWith c ds result) (\<lambda>c.
     and_then (RemoveInstruction c ds) (\<lambda>c.
     and_then (case reshape of None \<Rightarrow> (None, c) | Some r \<Rightarrow> RemoveInstruction c r) (\<lambda>c.
     RemoveInstructionAndUnusedOperands c ar)))"

text \<open>
  Lines 68 to 83 of the source: the all-reduce-scatter is added, and a reshape to the
  shape of the dynamic slice on top of it when operand 0 of the dynamic slice is not the
  all-reduce. The result is the handle of the intervening reshape (if any), the handle
  that replaces the dynamic slice, and the new computation; nothing when \<open>ds\<close> names no
  instruction or has no operand.
\<close>

definition AddReplacement ::
  "HloComputation \<Rightarrow> nat \<Rightarrow> HloInstruction \<Rightarrow> nat \<Rightarrow> HloInstruction
     \<Rightarrow> (nat option \<times> nat \<times> HloComputation) option" where
  "AddReplacement computation h ar ds new_ars =
     (let (ars, c1) = AddInstruction computation new_ars in
      case find_instruction c1 ds of
        None \<Rightarrow> None
      | Some dsi \<Rightarrow>
          (case operands dsi of
             [] \<Rightarrow> None
           | operand0 # rest \<Rightarrow>
               if operand0 \<noteq> h
               then (let (result, c2) = AddInstruction c1 (CreateReshape (shape dsi) ars)
                     in Some (Some operand0, result, c2))
               else Some (None, ars, c1)))"

text \<open>
  Lines 50 to 94 of the source: the rewrite of one all-reduce \<open>ar\<close> (handle \<open>h\<close>) for
  which the matcher answered \<open>ar_spec\<close>. Line 65, \<open>channel_id = next_channel_id++\<close>,
  hands out the value of the counter and increments it, whatever the value.
\<close>

definition Rewrite ::
  "nat \<Rightarrow> HloInstruction \<Rightarrow> AllReduceScatterSpec \<Rightarrow> RunState \<Rightarrow> Status \<times> RunState" where
  "Rewrite h ar ar_spec st =
     (let ds = dynamic_slice ar_spec;
          split = split_dim ar_spec;
          scatter_shape = shape ar
      in
      case dimension scatter_shape split of
        None \<Rightarrow> (Some Undefined, st)
      | Some d \<Rightarrow>
          (case (int64_rem d (group_size ar_spec), int64_div d (group_size ar_spec)) of
             (Some r, Some q) \<Rightarrow>
               if r \<noteq> 0 then (Some Internal, st)
               else
                 (let scatter_shape = set_dimensions scatter_shape split q;
                      channel = (if channel_id ar \<noteq> None then Some (next_channel_id st)
                                 else None);
                      next = (if channel_id ar \<noteq> None
                              then int64_wrap (next_channel_id st + 1)
                              else next_channel_id st)
                  in
                  case AddReplacement (comp st) h ar ds
                         (CreateAllReduceScatter scatter_shape (operands ar) (to_apply ar)
                            (replica_groups ar) (constrain_layout ar) channel
                            (use_global_device_ids ar) split) of
                    None \<Rightarrow> (Some Undefined, st)
                  | Some (reshape, result, c2) \<Rightarrow>
                      (case RemoveDead c2 ds reshape h result of
                         (Some e, c') \<Rightarrow>
                           (Some e, \<lparr>comp = c', next_channel_id = next, changed = changed st\<rparr>)
                       | (None, c') \<Rightarrow>
                           (None, \<lparr>comp = c', next_channel_id = next, changed = True\<rparr>)))
           | _ \<Rightarrow> (Some Undefined, st)))"

text \<open>
  The body of the inner loop (lines 37 to 94) for the entry \<open>h\<close> of the postorder
  snapshot. The snapshot is taken before the loop mutates the computation; an entry
  whose instruction has been removed since is passed over.
\<close>

definition Run_instruction ::
  "matcher \<Rightarrow> int \<Rightarrow> int \<Rightarrow> nat \<Rightarrow> RunState \<Rightarrow> Status \<times> RunState" where
  "Run_instruction M partitions replicas h st =
     (case find_instruction (comp st) h of
        None \<Rightarrow> (None, st)
      | Some instruction \<Rightarrow>
          if opcode instruction \<noteq> kAllReduce then (None, st)
          else
            (case M (comp st) h partitions replicas False True of
               None \<Rightarrow> (None, st)
             | Some ar_spec \<Rightarrow> Rewrite h instruction ar_spec st))"

fun Run_instructions ::
  "matcher \<Rightarrow> int \<Rightarrow> int \<Rightarrow> nat list \<Rightarrow> RunState \<Rightarrow> Status \<times> RunState" where
  "Run_instructions M partitions replicas [] st = (None, st)"
| "Run_instructions M partitions replicas (h # hs) st =
     (case Run_instruction M partitions replicas h st of
        (Some e, st') \<Rightarrow> (Some e, st')
      | (None, st') \<Rightarrow> Run_instructions M partitions replicas hs st')"

text \<open>
  The outer loop over the snapshot of the non-fusion computations. It carries the
  module, \<open>next_channel_id\<close> and \<open>changed\<close>.
\<close>

fun Run_computations ::
  "matcher \<Rightarrow> int \<Rightarrow> int \<Rightarrow> nat list \<Rightarrow> HloModule \<Rightarrow> int \<Rightarrow> bool
     \<Rightarrow> (error + bool) \<times> HloModule" where
  "Run_computations M partitions replicas [] m next chg = (Inr chg, m)"
| "Run_computations M partitions replicas (k # ks) m next chg =
     (if length (computations m) \<le> k then Run_computations M partitions replicas ks m next chg
      else
        (case Run_instructions M partitions replicas
                (MakeInstructionPostOrder (computations m ! k))
                \<lparr>comp = computations m ! k, next_channel_id = next, changed = chg\<rparr> of
           (Some e, st) \<Rightarrow> (Inl e, m\<lparr>computations := (computations m)[k := comp st]\<rparr>)
         | (None, st) \<Rightarrow>
             Run_computations M partitions replicas ks
               (m\<lparr>computations := (computations m)[k := comp st]\<rparr>)
               (next_channel_id st) (changed st)))"

text \<open>
  \<open>Run\<close> itself. The counter starts at \<open>NextChannelId\<close>.
\<close>

definition Run :: "matcher \<Rightarrow> HloModule \<Rightarrow> (error + bool) \<times> HloModule" where
  "Run M m =
     (let next_channel_id = NextChannelId m in
      Run_computations M (num_partitions (config m)) (replica_count (config m))
        (MakeNonfusionComputations m) m next_channel_id False)"

section \<open>The matcher\<close>

text \<open>
  Modelled from the spec: \<open>MatchAllReduceScatter\<close> (\<open>all_reduce_scatter_utils\<close>) is not
  part of the sources at hand. The model follows sections 4.1 to 4.3 of the spec: the
  group and index model, the shard-offset analyzer with its recognised shapes of offset
  subgraph (a device index times the shard size, one table lookup, two table lookups),
  and the pattern matcher that finds the unique dynamic-slice consumer of the reduction,
  directly or through one reshape. The spec describes the matcher as the pass calls it,
  with a single split dimension; the flag for several split dimensions is not consulted.
  A table has to have one entry for each value of the index that selects from it (a size
  mismatch is a non-match): for a table read at a device index that is the number of
  replicas, of partitions or of global devices, whichever the index counts, which is the
  participant count when the index is the participant's id; for the offset table of a
  two-level lookup, read at the rank, it is the group size.
  A collective with a channel id and without global device ids runs across the
  partitions, with one singleton replica group for each replica, as in the test
  \<open>AllPartitions\<close>.
\<close>

fun index_of :: "'a list \<Rightarrow> 'a \<Rightarrow> nat option" where
  "index_of [] x = None"
| "index_of (y # ys) x = (if y = x then Some 0 else map_option Suc (index_of ys x))"

definition groupSizeAndCount :: "int list list \<Rightarrow> (nat \<times> nat) option" where
  "groupSizeAndCount groups =
     (case groups of
        [] \<Rightarrow> None
      | g # gs \<Rightarrow> if \<forall>g' \<in> set gs. length g' = length g
                  then Some (length g, length groups) else None)"

definition rankOf :: "int list list \<Rightarrow> int \<Rightarrow> (nat \<times> nat) option" where
  "rankOf groups d =
     (if groupSizeAndCount groups = None then None
      else case filter (\<lambda>j. d \<in> set (groups ! j)) [0..<length groups] of
        [j] \<Rightarrow> map_option (\<lambda>r. (j, r)) (index_of (groups ! j) d)
      | _ \<Rightarrow> None)"

datatype CollectiveMode = CrossReplica | CrossPartition | GlobalDevices

definition collective_mode :: "HloInstruction \<Rightarrow> CollectiveMode" where
  "collective_mode ar =
     (if channel_id ar = None then CrossReplica
      else if use_global_device_ids ar then GlobalDevices else CrossPartition)"

definition participant_count :: "CollectiveMode \<Rightarrow> int \<Rightarrow> int \<Rightarrow> int" where
  "participant_count mode partitions replicas =
     (case mode of
        CrossReplica \<Rightarrow> replicas
      | CrossPartition \<Rightarrow> partitions
      | GlobalDevices \<Rightarrow> replicas * partitions)"

definition participant_groups ::
  "HloInstruction \<Rightarrow> int \<Rightarrow> int \<Rightarrow> int list list option" where
  "participant_groups ar partitions replicas =
     (let mode = collective_mode ar;
          everyone = map int [0..<nat (participant_count mode partitions replicas)]
      in case mode of
        CrossPartition \<Rightarrow>
          if int (length (replica_groups ar)) = replicas \<and>
             (\<forall>g \<in> set (replica_groups ar). length g = 1)
          then Some [everyone] else None
      | _ \<Rightarrow> Some (if replica_groups ar = [] then [everyone] else replica_groups ar))"

definition replicaId :: "CollectiveMode \<Rightarrow> int \<Rightarrow> int \<Rightarrow> int option" where
  "replicaId mode partitions d =
     (case mode of
        CrossReplica \<Rightarrow> Some d
      | CrossPartition \<Rightarrow> None
      | GlobalDevices \<Rightarrow> if partitions = 0 then None else Some (d div partitions))"

definition partitionId :: "CollectiveMode \<Rightarrow> int \<Rightarrow> int \<Rightarrow> int option" where
  "partitionId mode partitions d =
     (case mode of
        CrossReplica \<Rightarrow> None
      | CrossPartition \<Rightarrow> Some d
      | GlobalDevices \<Rightarrow> if partitions = 0 then None else Some (d mod partitions))"

definition has_opcode :: "HloComputation \<Rightarrow> nat \<Rightarrow> HloOpcode \<Rightarrow> bool" where
  "has_opcode c h opc = (case find_instruction c h of None \<Rightarrow> False | Some i \<Rightarrow> opcode i = opc)"

definition scalar_constant :: "HloComputation \<Rightarrow> nat \<Rightarrow> int option" where
  "scalar_constant c h =
     (case find_instruction c h of
        None \<Rightarrow> None
      | Some i \<Rightarrow>
          if opcode i = kConstant \<and> dimensions (shape i) = []
          then (case literal i of [v] \<Rightarrow> Some v | _ \<Rightarrow> None) else None)"

definition plain_id :: "HloComputation \<Rightarrow> int option \<Rightarrow> int option \<Rightarrow> nat \<Rightarrow> int option" where
  "plain_id c rid pid h =
     (case find_instruction c h of
        None \<Rightarrow> None
      | Some i \<Rightarrow>
          if opcode i = kReplicaId then rid
          else if opcode i = kPartitionId then pid else None)"

definition deviceIndexValue ::
  "HloComputation \<Rightarrow> CollectiveMode \<Rightarrow> int \<Rightarrow> int \<Rightarrow> nat \<Rightarrow> int option" where
  "deviceIndexValue c mode partitions d h =
     (let rid = replicaId mode partitions d; pid = partitionId mode partitions d in
      case find_instruction c h of
        None \<Rightarrow> None
      | Some i \<Rightarrow>
          if opcode i = kConvert then
            (case operands i of [x] \<Rightarrow> plain_id c rid pid x | _ \<Rightarrow> None)
          else if opcode i = kAdd \<and> mode = GlobalDevices then
            (case operands i of
               [a, b] \<Rightarrow>
                 (case find_instruction c a of
                    None \<Rightarrow> None
                  | Some ai \<Rightarrow>
                      (case operands ai of
                         [r, p] \<Rightarrow>
                           if opcode ai = kMultiply \<and> has_opcode c r kReplicaId \<and>
                              scalar_constant c p = Some partitions \<and>
                              has_opcode c b kPartitionId
                           then Some d else None
                       | _ \<Rightarrow> None))
             | _ \<Rightarrow> None)
          else plain_id c rid pid h)"

text \<open>The number of values a device index takes, by the same cases.\<close>

definition plain_count ::
  "HloComputation \<Rightarrow> CollectiveMode \<Rightarrow> int \<Rightarrow> int \<Rightarrow> nat \<Rightarrow> int option" where
  "plain_count c mode partitions replicas h =
     (case find_instruction c h of
        None \<Rightarrow> None
      | Some i \<Rightarrow>
          if opcode i = kReplicaId then
            (if mode = CrossPartition then None else Some replicas)
          else if opcode i = kPartitionId then
            (if mode = CrossReplica then None else Some partitions)
          else None)"

definition deviceIndexCount ::
  "HloComputation \<Rightarrow> CollectiveMode \<Rightarrow> int \<Rightarrow> int \<Rightarrow> nat \<Rightarrow> int option" where
  "deviceIndexCount c mode partitions replicas h =
     (case find_instruction c h of
        None \<Rightarrow> None
      | Some i \<Rightarrow>
          if opcode i = kConvert then
            (case operands i of [x] \<Rightarrow> plain_count c mode partitions replicas x | _ \<Rightarrow> None)
          else if opcode i = kAdd \<and> mode = GlobalDevices then Some (replicas * partitions)
          else plain_count c mode partitions replicas h)"

text \<open>
  The entries of a table: a constant array of rank 1 with as many entries as its shape
  says, or a generated sequence. Whether that number is the number of values of the
  index is decided in \<open>rawValue\<close>, where the index that reads the table is known.
\<close>

definition table_values :: "HloComputation \<Rightarrow> nat \<Rightarrow> int list option" where
  "table_values c t =
     (case find_instruction c t of
        None \<Rightarrow> None
      | Some ti \<Rightarrow>
          (case dimensions (shape ti) of
             [n] \<Rightarrow>
               if opcode ti = kConstant \<and> int (length (literal ti)) = n then Some (literal ti)
               else if opcode ti = kIota then Some (map int [0..<nat n])
               else None
           | _ \<Rightarrow> None))"

definition slice_parts :: "HloComputation \<Rightarrow> nat \<Rightarrow> (int list \<times> nat) option" where
  "slice_parts c h =
     (case find_instruction c h of
        None \<Rightarrow> None
      | Some i \<Rightarrow>
          if opcode i = kDynamicSlice then
            (case operands i of
               [t, x] \<Rightarrow> map_option (\<lambda>tab. (tab, x)) (table_values c t)
             | _ \<Rightarrow> None)
          else None)"

definition lookup_parts :: "HloComputation \<Rightarrow> nat \<Rightarrow> (int list \<times> nat) option" where
  "lookup_parts c h =
     (case find_instruction c h of
        None \<Rightarrow> None
      | Some i \<Rightarrow>
          if opcode i = kReshape then
            (case operands i of [x] \<Rightarrow> slice_parts c x | _ \<Rightarrow> None)
          else slice_parts c h)"

definition lookup :: "int list \<Rightarrow> int \<Rightarrow> int option" where
  "lookup tab k = (if 0 \<le> k \<and> k < int (length tab) then Some (tab ! nat k) else None)"

text \<open>
  The value of an offset subgraph at the device \<open>d\<close>, for a collective of mode \<open>mode\<close>
  with groups of size \<open>G\<close>: a device index, one table lookup or two table lookups
  (\<open>rawValue\<close>), with or without a final multiplication by a constant (\<open>offsetValue\<close>).
\<close>

definition rawValue ::
  "HloComputation \<Rightarrow> CollectiveMode \<Rightarrow> int \<Rightarrow> int \<Rightarrow> nat \<Rightarrow> int \<Rightarrow> nat \<Rightarrow> int option" where
  "rawValue c mode partitions replicas G d h =
     (case lookup_parts c h of
        None \<Rightarrow> deviceIndexValue c mode partitions d h
      | Some (tab, x) \<Rightarrow>
          (case lookup_parts c x of
             None \<Rightarrow>
               if deviceIndexCount c mode partitions replicas x = Some (int (length tab))
               then Option.bind (deviceIndexValue c mode partitions d x) (lookup tab)
               else None
           | Some (tab', x') \<Rightarrow>
               if deviceIndexCount c mode partitions replicas x' = Some (int (length tab')) \<and>
                  length tab = G
               then Option.bind
                      (Option.bind (deviceIndexValue c mode partitions d x') (lookup tab'))
                      (lookup tab)
               else None))"

definition offsetValue ::
  "HloComputation \<Rightarrow> CollectiveMode \<Rightarrow> int \<Rightarrow> int \<Rightarrow> nat \<Rightarrow> int \<Rightarrow> nat \<Rightarrow> int option" where
  "offsetValue c mode partitions replicas G d h =
     (case find_instruction c h of
        None \<Rightarrow> None
      | Some i \<Rightarrow>
          if opcode i = kMultiply then
            (case operands i of
               [a, b] \<Rightarrow>
                 (case scalar_constant c b of
                    Some v \<Rightarrow>
                      map_option (\<lambda>r. r * v) (rawValue c mode partitions replicas G d a)
                  | None \<Rightarrow> None)
             | _ \<Rightarrow> None)
          else rawValue c mode partitions replicas G d h)"

definition IsPerIdOffset ::
  "HloComputation \<Rightarrow> CollectiveMode \<Rightarrow> int \<Rightarrow> int \<Rightarrow> int list list \<Rightarrow> nat \<Rightarrow> int \<Rightarrow> nat
     \<Rightarrow> bool" where
  "IsPerIdOffset c mode partitions replicas groups G shard offset \<longleftrightarrow>
     (\<forall>g \<in> set groups. \<forall>d \<in> set g.
        case rankOf groups d of
          None \<Rightarrow> False
        | Some (j, rank) \<Rightarrow>
            offsetValue c mode partitions replicas G d offset = Some (int rank * shard))"

definition legal_groups :: "int list list \<Rightarrow> int \<Rightarrow> bool" where
  "legal_groups groups n \<longleftrightarrow>
     groupSizeAndCount groups \<noteq> None \<and> distinct (concat groups) \<and>
     int (length (concat groups)) = n \<and> (\<forall>d \<in> set (concat groups). 0 \<le> d \<and> d < n)"

definition unmodified_dim :: "int list \<Rightarrow> int list \<Rightarrow> nat \<Rightarrow> nat option" where
  "unmodified_dim ar_dims in_dims j =
     (case filter (\<lambda>i. ar_dims ! i = in_dims ! j \<and> prod_list (take i ar_dims) = prod_list (take j in_dims))
             [0..<length ar_dims] of
        [] \<Rightarrow> None
      | i # _ \<Rightarrow> Some i)"

definition MatchSlice ::
  "HloComputation \<Rightarrow> nat \<Rightarrow> HloInstruction \<Rightarrow> nat option \<Rightarrow> nat \<Rightarrow> int \<Rightarrow> int
     \<Rightarrow> AllReduceScatterSpec option" where
  "MatchSlice c h ar via ds partitions replicas =
     (case (find_instruction c ds, participant_groups ar partitions replicas) of
        (Some dsi, Some groups) \<Rightarrow>
          (case (operands dsi, groupSizeAndCount groups) of
             (src # starts, Some (G, count)) \<Rightarrow>
               (case find_instruction c src of
                  None \<Rightarrow> None
                | Some srci \<Rightarrow>
                    (let in_dims = dimensions (shape srci);
                         out_dims = dimensions (shape dsi);
                         ar_dims = dimensions (shape ar);
                         mode = collective_mode ar
                     in
                     if opcode dsi \<noteq> kDynamicSlice \<or> src \<noteq> (case via of None \<Rightarrow> h | Some r \<Rightarrow> r)
                        \<or> length out_dims \<noteq> length in_dims \<or> length starts \<noteq> length in_dims
                        \<or> \<not> legal_groups groups (participant_count mode partitions replicas)
                     then None
                     else
                       (case filter (\<lambda>j. in_dims ! j \<noteq> out_dims ! j) [0..<length in_dims] of
                          [j] \<Rightarrow>
                            (case (case via of None \<Rightarrow> Some j
                                   | Some r \<Rightarrow> unmodified_dim ar_dims in_dims j) of
                               None \<Rightarrow> None
                             | Some split \<Rightarrow>
                                 (let shard = out_dims ! j in
                                  if 0 < shard \<and> ar_dims ! split = shard * int G \<and> 0 < G \<and>
                                     IsPerIdOffset c mode partitions replicas groups G shard
                                       (starts ! j)
                                  then Some \<lparr>split_dim = int split,
                                             group_size = (ar_dims ! split) sdiv shard,
                                             dynamic_slice = ds\<rparr>
                                  else None))
                        | _ \<Rightarrow> None)))
           | _ \<Rightarrow> None)
      | _ \<Rightarrow> None)"

definition MatchAllReduceScatter :: matcher where
  "MatchAllReduceScatter c h partitions replicas allow_multiple_split_dims
       allow_intervening_reshape =
     (case find_instruction c h of
        None \<Rightarrow> None
      | Some ar \<Rightarrow>
          if opcode ar \<noteq> kAllReduce \<or> root_instruction c = h then None
          else
            (case users c h of
               [u] \<Rightarrow>
                 if allow_intervening_reshape \<and> has_opcode c u kReshape then
                   (if root_instruction c = u then None
                    else case users c u of
                      [v] \<Rightarrow> MatchSlice c h ar (Some u) v partitions replicas
                    | _ \<Rightarrow> None)
                 else MatchSlice c h ar None u partitions replicas
             | _ \<Rightarrow> None))"







section \<open>Well-formed computations and accepted matches\<close>

text \<open>
  The arena invariant of a computation: handles are unique and below the next handle to
  be handed out, and only channel instructions (collectives; the opcodes not told apart
  here are \<open>kOther\<close>) carry a channel id.
\<close>

definition IsChannelInstruction :: "HloOpcode \<Rightarrow> bool" where
  "IsChannelInstruction opc \<longleftrightarrow> opc = kAllReduce \<or> opc = kAllReduceScatter \<or> opc = kOther"

definition wf_computation :: "HloComputation \<Rightarrow> bool" where
  "wf_computation c \<longleftrightarrow>
     distinct (map fst (instructions c)) \<and>
     (\<forall>h \<in> set (map fst (instructions c)). h < next_handle c) \<and>
     (\<forall>(h, i) \<in> set (instructions c).
        channel_id i \<noteq> None \<longrightarrow> IsChannelInstruction (opcode i))"

text \<open>
  Modelled from the spec: what an accepted match stands for (section 4.3). The
  all-reduce \<open>h\<close> is consumed by the dynamic slice of the match alone, directly or
  through one reshape that the dynamic slice alone consumes; the split dimension is a
  dimension of the all-reduce and the group size is positive. Being the root counts as
  a use.
\<close>

definition AcceptedMatch :: "HloComputation \<Rightarrow> nat \<Rightarrow> AllReduceScatterSpec \<Rightarrow> bool" where
  "AcceptedMatch c h sp \<longleftrightarrow>
     (case find_instruction c h of
        None \<Rightarrow> False
      | Some ar \<Rightarrow>
          (case find_instruction c (dynamic_slice sp) of
             None \<Rightarrow> False
           | Some dsi \<Rightarrow>
               opcode ar = kAllReduce \<and> opcode dsi = kDynamicSlice \<and>
               root_instruction c \<noteq> h \<and>
               0 \<le> split_dim sp \<and> split_dim sp < int (length (dimensions (shape ar))) \<and>
               0 < group_size sp \<and>
               (case operands dsi of
                  [] \<Rightarrow> False
                | operand0 # rest \<Rightarrow>
                    if operand0 = h then users c h = [dynamic_slice sp]
                    else
                      (case find_instruction c operand0 of
                         None \<Rightarrow> False
                       | Some r \<Rightarrow>
                           opcode r = kReshape \<and> root_instruction c \<noteq> operand0 \<and>
                           users c h = [operand0] \<and>
                           users c operand0 = [dynamic_slice sp]))))"


text \<open>
  Modelled from the spec: the shape facts of the IR library that the pattern relies on
  (glossary of the spec). Every operand is a handle handed out before, a reshape has one
  operand, and the start indices of a dynamic slice, its operands after the first, are
  scalars.
\<close>

definition well_typed :: "HloComputation \<Rightarrow> bool" where
  "well_typed c \<longleftrightarrow>
     wf_computation c \<and>
     (\<forall>(h, i) \<in> set (instructions c).
        (\<forall>x \<in> set (operands i). x < next_handle c) \<and>
        (opcode i = kReshape \<longrightarrow> length (operands i) = 1) \<and>
        (opcode i = kDynamicSlice \<longrightarrow>
           (\<forall>y \<in> set (tl (operands i)).
              case find_instruction c y of
                None \<Rightarrow> True
              | Some yi \<Rightarrow> dimensions (shape yi) = [])))"


section \<open>The modules of the tests\<close>

text \<open>
  Modules of \<open>gpu_all_reduce_scatter_creator_test.cc\<close>: computation 0 is \<open>%sum\<close>,
  computation 1 the entry computation, with the instructions numbered in the order of
  the HLO text.
\<close>

definition instr :: "HloOpcode \<Rightarrow> PrimitiveType \<Rightarrow> int list \<Rightarrow> nat list \<Rightarrow> HloInstruction" where
  "instr opc ty dims ops =
     \<lparr>opcode = opc, shape = \<lparr>element_type = ty, dimensions = dims, layout = None\<rparr>,
      operands = ops, to_apply = None, replica_groups = [], constrain_layout = False,
      channel_id = None, use_global_device_ids = False, scatter_dimension = None,
      literal = []\<rparr>"

definition sum_computation :: HloComputation where
  "sum_computation =
     \<lparr>instructions = [(0, instr kParameter F32 [] []), (1, instr kParameter F32 [] []),
                      (2, instr kAdd F32 [] [0, 1])],
      root_instruction = 2, next_handle = 3, IsFusionComputation = False\<rparr>"

definition mk_module :: "(nat \<times> HloInstruction) list \<Rightarrow> nat \<Rightarrow> int \<Rightarrow> int \<Rightarrow> HloModule" where
  "mk_module is root replicas partitions =
    \<lparr>computations = [sum_computation,
        \<lparr>instructions = is, root_instruction = root, next_handle = length is, IsFusionComputation = False\<rparr>],
     config = \<lparr>num_partitions = partitions, replica_count = replicas\<rparr>\<rparr>"

definition all_reduce :: "int list \<Rightarrow> nat list \<Rightarrow> int list list \<Rightarrow> int option \<Rightarrow> bool \<Rightarrow> HloInstruction" where
  "all_reduce dims ops groups ch glob = (instr kAllReduce F32 dims ops)\<lparr>to_apply := Some 0, replica_groups := groups, channel_id := ch, use_global_device_ids := glob\<rparr>"

definition const :: "PrimitiveType \<Rightarrow> int list \<Rightarrow> int list \<Rightarrow> HloInstruction" where
  "const ty dims vs = (instr kConstant ty dims [])\<lparr>literal := vs\<rparr>"

definition AllReplicas :: HloModule where
  "AllReplicas = mk_module
     [(0, instr kParameter F32 [32,8,128] []),
      (1, all_reduce [32,8,128] [0] [] None False),
      (2, const S32 [8] [0,1,2,3,4,5,6,7]),
      (3, instr kReplicaId U32 [] []),
      (4, instr kDynamicSlice S32 [1] [2, 3]),
      (5, instr kReshape S32 [] [4]),
      (6, const S32 [] [4]),
      (7, instr kMultiply S32 [] [5, 6]),
      (8, const S32 [] [0]),
      (9, instr kDynamicSlice F32 [4,8,128] [1, 7, 8, 8])] 9 8 1"

definition AllReplicasWithReshape :: HloModule where
  "AllReplicasWithReshape = mk_module
     [(0, instr kParameter F32 [32,8,128] []),
      (1, all_reduce [32,8,128] [0] [] None False),
      (2, const S32 [8] [0,1,2,3,4,5,6,7]),
      (3, instr kReplicaId U32 [] []),
      (4, instr kDynamicSlice S32 [1] [2, 3]),
      (5, instr kReshape S32 [] [4]),
      (6, const S32 [] [4]),
      (7, instr kMultiply S32 [] [5, 6]),
      (8, const S32 [] [0]),
      (9, instr kReshape F32 [32,16,64] [1]),
      (10, instr kDynamicSlice F32 [4,16,64] [9, 7, 8, 8])] 10 8 1"



definition SubgroupsGlobals :: HloModule where
  "SubgroupsGlobals = mk_module
     [(0, instr kParameter F32 [32,8,128] []),
      (1, all_reduce [32,8,128] [0] [[1,3,2,0],[4,5,6,7]] (Some 1) True),
      (2, instr kPartitionId U32 [] []),
      (3, instr kReplicaId U32 [] []),
      (4, const U32 [] [4]),
      (5, instr kMultiply U32 [] [3, 4]),
      (6, instr kAdd U32 [] [5, 2]),
      (7, const S32 [8] [3,0,2,1,0,1,2,3]),
      (8, instr kDynamicSlice S32 [1] [7, 6]),
      (9, instr kReshape S32 [] [8]),
      (10, const S32 [4] [0,8,16,24]),
      (11, instr kDynamicSlice S32 [1] [10, 9]),
      (12, instr kReshape S32 [] [11]),
      (13, const S32 [] [0]),
      (14, instr kDynamicSlice F32 [8,8,128] [1, 12, 13, 13])] 14 2 4"


text \<open>
  The state in which the inner loop of \<open>Run\<close> starts on the entry computation of a
  module.
\<close>

definition entry_state :: "HloModule \<Rightarrow> RunState" where
  "entry_state m = \<lparr>comp = computations m ! 1, next_channel_id = NextChannelId m, changed = False\<rparr>"


section \<open>The invariant of the channel ids\<close>







definition with_computation :: "HloModule \<Rightarrow> nat \<Rightarrow> HloComputation \<Rightarrow> HloModule" where
  "with_computation m k c = m\<lparr>computations := (computations m)[k := c]\<rparr>"

section \<open>One rewrite seen from outside\<close>

text \<open>
  What a successful rewrite of the all-reduce \<open>b\<close>, sliced by \<open>ds\<close> directly or through
  the reshape \<open>rsh\<close>, does to a computation, told through \<open>find_instruction\<close> alone.
  \<open>result_handle\<close> is the handle of the instruction that takes the place of the slice:
  the reduce-scatter, or the new reshape above it. The three instructions of the pattern
  are gone, every other instruction is kept with the slice replaced among its operands,
  and the new instructions sit at the next handles.
\<close>

definition result_handle :: "HloComputation \<Rightarrow> nat option \<Rightarrow> nat" where
  "result_handle c rsh = (case rsh of None \<Rightarrow> next_handle c | Some r \<Rightarrow> Suc (next_handle c))"

definition Rewritten ::
  "HloComputation \<Rightarrow> HloComputation \<Rightarrow> nat \<Rightarrow> nat \<Rightarrow> nat option \<Rightarrow> bool" where
  "Rewritten c c' b ds rsh \<longleftrightarrow>
      wf_computation c \<and> wf_computation c' \<and>
      root_instruction c' =
        (if root_instruction c = ds then result_handle c rsh else root_instruction c) \<and>
      next_handle c' = Suc (result_handle c rsh) \<and>
      IsFusionComputation c' = IsFusionComputation c \<and>
      (\<forall>y i. find_instruction c y = Some i \<longrightarrow>
         find_instruction c' y =
           (if y = b \<or> y = ds \<or> rsh = Some y then None
            else Some (replace_operand ds (result_handle c rsh) i))) \<and>
      (\<forall>y. find_instruction c y = None \<longrightarrow> y \<noteq> next_handle c \<longrightarrow>
         y \<noteq> result_handle c rsh \<longrightarrow> find_instruction c' y = None) \<and>
      (\<exists>ars ar dsi src starts.
         find_instruction c' (next_handle c) = Some ars \<and> opcode ars = kAllReduceScatter \<and>
         find_instruction c b = Some ar \<and> opcode ar = kAllReduce \<and>
         operands ars = operands (replace_operand ds (result_handle c rsh) ar) \<and>
         find_instruction c ds = Some dsi \<and> opcode dsi = kDynamicSlice \<and>
         operands dsi = src # starts \<and> dimensions (shape dsi) \<noteq> [] \<and>
         (case rsh of
            None \<Rightarrow> src = b \<and> users c b = [ds]
          | Some r \<Rightarrow>
              src = r \<and> r \<noteq> b \<and> users c b = [r] \<and> users c r = [ds] \<and>
              (\<exists>ri rs. find_instruction c r = Some ri \<and> opcode ri = kReshape \<and>
                 find_instruction c' (Suc (next_handle c)) = Some rs \<and>
                 opcode rs = kReshape \<and> operands rs = [next_handle c])))"

text \<open>
  The handles none of the lookups of the matcher can read: an absent instruction, a
  reduce-scatter, and a reshape of a reduce-scatter.
\<close>

definition inert :: "HloComputation \<Rightarrow> nat \<Rightarrow> bool" where
  "inert c y \<longleftrightarrow>
     (case find_instruction c y of
        None \<Rightarrow> True
      | Some i \<Rightarrow>
          opcode i = kAllReduceScatter \<or>
          (opcode i = kReshape \<and>
           (case operands i of [z] \<Rightarrow> has_opcode c z kAllReduceScatter | _ \<Rightarrow> False)))"


section \<open>Facts about the IR library\<close>

lemma find_instruction_fresh:
  "wf_computation c \<Longrightarrow> find_instruction c (next_handle c) = None"
  by (force simp: wf_computation_def find_instruction_def map_of_eq_None_iff)

lemma find_instruction_lt:
  "wf_computation c \<Longrightarrow> find_instruction c h = Some i \<Longrightarrow> h < next_handle c"
  by (force simp: wf_computation_def find_instruction_def dest: map_of_SomeD)

lemma prune_noop:
  "\<forall>w \<in> set ws. find_instruction c w = None \<or> has_uses c w \<Longrightarrow> prune ws c = c"
  by (induction ws) (auto split: option.splits)

lemma map_of_filter_key:
  "map_of (filter (\<lambda>(k, i). k \<noteq> h) xs) k = (if k = h then None else map_of xs k)"
  by (induction xs) auto

lemma map_of_map_value:
  "map_of (map (\<lambda>(k, i). (k, f i)) xs) k = map_option f (map_of xs k)"
  by (induction xs) auto

lemma find_instruction_erase:
  "find_instruction (erase c h) k = (if k = h then None else find_instruction c k)"
  by (simp add: find_instruction_def erase_def map_of_filter_key)

lemma find_instruction_replace_uses:
  "find_instruction (replace_uses c old new) k =
   map_option (replace_operand old new) (find_instruction c k)"
  by (simp add: find_instruction_def replace_uses_def map_of_map_value)

lemma find_instruction_add:
  "find_instruction (add_instruction c i) k =
   (case find_instruction c k of
      Some j \<Rightarrow> Some j
    | None \<Rightarrow> if k = next_handle c then Some i else None)"
  by (simp add: find_instruction_def add_instruction_def map_add_def split: option.splits)

lemma users_erase: "users (erase c h) x = filter (\<lambda>u. u \<noteq> h) (users c x)"
proof -
  have "map fst (filter (\<lambda>(u, i). x \<in> set (operands i)) (filter (\<lambda>(k, i). k \<noteq> h) xs))
        = filter (\<lambda>u. u \<noteq> h) (map fst (filter (\<lambda>(u, i). x \<in> set (operands i)) xs))" for xs
    by (induction xs) auto
  then show ?thesis by (simp add: users_def erase_def)
qed

lemma users_add:
  "users (add_instruction c i) x =
   users c x @ (if x \<in> set (operands i) then [next_handle c] else [])"
  by (simp add: users_def add_instruction_def)

lemma users_replace_uses_old:
  "new \<noteq> old \<Longrightarrow> users (replace_uses c old new) old = []"
  by (auto simp: users_def replace_uses_def replace_operand_def filter_empty_conv)

lemma users_replace_uses_other:
  assumes "x \<noteq> old" "x \<noteq> new"
  shows "users (replace_uses c old new) x = users c x"
proof -
  have "map fst (filter (\<lambda>(u, i). x \<in> set (operands i))
                   (map (\<lambda>(h, i). (h, replace_operand old new i)) xs))
        = map fst (filter (\<lambda>(u, i). x \<in> set (operands i)) xs)" for xs
    using assms by (induction xs) (auto simp: replace_operand_def)
  then show ?thesis by (simp add: users_def replace_uses_def)
qed

lemma root_erase [simp]: "root_instruction (erase c h) = root_instruction c"
  by (simp add: erase_def)

lemma root_add [simp]: "root_instruction (add_instruction c i) = root_instruction c"
  by (simp add: add_instruction_def)

lemma root_replace_uses:
  "root_instruction (replace_uses c old new) =
   (if root_instruction c = old then new else root_instruction c)"
  by (simp add: replace_uses_def)

lemma next_handle_simps [simp]:
  "next_handle (erase c h) = next_handle c"
  "next_handle (replace_uses c old new) = next_handle c"
  "next_handle (add_instruction c i) = Suc (next_handle c)"
  by (simp_all add: erase_def replace_uses_def add_instruction_def)

lemma users_mem:
  "(k, i) \<in> set (instructions c) \<Longrightarrow> x \<in> set (operands i) \<Longrightarrow> k \<in> set (users c x)"
  by (force simp: users_def)

lemma find_instruction_mem:
  "find_instruction c h = Some i \<Longrightarrow> (h, i) \<in> set (instructions c)"
  by (simp add: find_instruction_def map_of_SomeD)

lemma set_users_erase: "set (users (erase c h) x) = set (users c x) - {h}"
  by (auto simp: users_erase)

lemma instructions_replace_uses_mem:
  "(k, i) \<in> set (instructions c) \<Longrightarrow>
   (k, replace_operand old new i) \<in> set (instructions (replace_uses c old new))"
  by (force simp: replace_uses_def)

lemma instructions_add_mem:
  "(next_handle c, i) \<in> set (instructions (add_instruction c i))"
  by (simp add: add_instruction_def)

lemma operands_replace_operand_keep:
  "x \<in> set (operands i) \<Longrightarrow> x \<noteq> old \<Longrightarrow> x \<in> set (operands (replace_operand old new i))"
  by (force simp: replace_operand_def)


lemma RemoveDead_direct:
  assumes wf: "wf_computation c"
    and ar: "find_instruction c h = Some ar"
    and ds: "find_instruction c ds = Some dsi"
    and us: "users c h = [ds]"
    and root: "root_instruction c \<noteq> h"
    and neq: "ds \<noteq> h"
    and ops: "operands ars = operands ar"
  shows "RemoveDead (add_instruction c ars) ds None h (next_handle c) =
         (None, erase (erase (replace_uses (add_instruction c ars) ds (next_handle c)) ds) h)"
proof -
  let ?n = "next_handle c"
  let ?c1 = "add_instruction c ars"
  let ?c3 = "replace_uses ?c1 ds ?n"
  let ?c4 = "erase ?c3 ds"
  have lt: "ds < ?n" "h < ?n"
    using wf ar ds by (auto dest: find_instruction_lt)
  have fresh: "find_instruction c ?n = None"
    using wf by (rule find_instruction_fresh)
  have self: "h \<notin> set (operands ar)"
  proof
    assume "h \<in> set (operands ar)"
    then have "h \<in> set (users c h)"
      using ar by (auto intro: users_mem dest: find_instruction_mem)
    then show False using us neq by simp
  qed
  have A: "ReplaceAllUsesWith ?c1 ds ?n = (None, ?c3)"
    using ds fresh by (simp add: ReplaceAllUsesWith_def find_instruction_add)
  have B: "RemoveInstruction ?c3 ds = (None, ?c4)"
    using ds lt
    by (simp add: RemoveInstruction_def has_uses_def find_instruction_replace_uses
        find_instruction_add users_replace_uses_old root_replace_uses)
  have uh: "users ?c4 h = []"
    using lt neq self us ops
    by (simp add: users_erase users_replace_uses_other users_add)
  have rh: "root_instruction ?c4 \<noteq> h"
    using root lt by (simp add: root_replace_uses)
  have fh: "find_instruction ?c4 h = Some (replace_operand ds ?n ar)"
    using ar neq
    by (simp add: find_instruction_erase find_instruction_replace_uses find_instruction_add)
  have keep: "find_instruction (erase ?c4 h) w = None \<or> has_uses (erase ?c4 h) w"
    if w: "w \<in> set (operands (replace_operand ds ?n ar))" for w
  proof -
    have "w \<in> set (operands (replace_operand ds ?n ars))"
      using w ops by (simp add: replace_operand_def)
    then have "?n \<in> set (users ?c3 w)"
      by (rule users_mem [OF instructions_replace_uses_mem [OF instructions_add_mem]])
    then have "?n \<in> set (users (erase ?c4 h) w)"
      using lt by (simp add: set_users_erase)
    then show ?thesis by (auto simp: has_uses_def)
  qed
  have C: "RemoveInstructionAndUnusedOperands ?c4 h = (None, erase ?c4 h)"
    using fh uh rh keep
    by (simp add: RemoveInstructionAndUnusedOperands_def has_uses_def prune_noop)
  show ?thesis
    by (simp add: RemoveDead_def and_then_def A B C)
qed


lemma RemoveDead_reshape:
  assumes wf: "wf_computation c"
    and ar: "find_instruction c h = Some ar"
    and ds: "find_instruction c ds = Some dsi"
    and re: "find_instruction c r = Some ri"
    and us: "users c h = [r]"
    and ur: "users c r = [ds]"
    and root: "root_instruction c \<noteq> h" "root_instruction c \<noteq> r"
    and neq: "ds \<noteq> h" "r \<noteq> h" "r \<noteq> ds"
    and ops: "operands ars = operands ar" "operands rs = [next_handle c]"
  shows "RemoveDead (add_instruction (add_instruction c ars) rs) ds (Some r) h
           (Suc (next_handle c)) =
         (None, erase (erase (erase (replace_uses (add_instruction (add_instruction c ars) rs)
                                       ds (Suc (next_handle c))) ds) r) h)"
proof -
  let ?n = "next_handle c"
  let ?c1 = "add_instruction c ars"
  let ?c2 = "add_instruction ?c1 rs"
  let ?c3 = "replace_uses ?c2 ds (Suc ?n)"
  let ?c4 = "erase ?c3 ds"
  let ?c5 = "erase ?c4 r"
  have lt: "ds < ?n" "h < ?n" "r < ?n"
    using wf ar ds re by (auto dest: find_instruction_lt)
  have fresh: "find_instruction c ?n = None"
    using wf by (rule find_instruction_fresh)
  have fresh2: "find_instruction c (Suc ?n) = None"
  proof (cases "find_instruction c (Suc ?n)")
    case (Some i)
    then show ?thesis using find_instruction_lt [OF wf Some] by simp
  qed simp
  have self: "h \<notin> set (operands ar)"
  proof
    assume "h \<in> set (operands ar)"
    then have "h \<in> set (users c h)"
      using ar by (auto intro: users_mem dest: find_instruction_mem)
    then show False using us neq by simp
  qed
  have rar: "r \<notin> set (operands ar)"
  proof
    assume "r \<in> set (operands ar)"
    then have "h \<in> set (users c r)"
      using ar by (auto intro: users_mem dest: find_instruction_mem)
    then show False using ur neq by simp
  qed
  have A: "ReplaceAllUsesWith ?c2 ds (Suc ?n) = (None, ?c3)"
    using ds fresh fresh2 by (simp add: ReplaceAllUsesWith_def find_instruction_add)
  have B: "RemoveInstruction ?c3 ds = (None, ?c4)"
    using ds lt
    by (simp add: RemoveInstruction_def has_uses_def find_instruction_replace_uses
        find_instruction_add users_replace_uses_old root_replace_uses)
  have B2: "RemoveInstruction ?c4 r = (None, ?c5)"
    using re lt neq rar ur ops root
    by (simp add: RemoveInstruction_def has_uses_def find_instruction_erase
        find_instruction_replace_uses find_instruction_add users_erase
        users_replace_uses_other users_add root_replace_uses)
  have uh: "users ?c5 h = []"
    using lt neq self us ops
    by (simp add: users_erase users_replace_uses_other users_add)
  have rh: "root_instruction ?c5 \<noteq> h"
    using root lt by (simp add: root_replace_uses)
  have fh: "find_instruction ?c5 h = Some (replace_operand ds (Suc ?n) ar)"
    using ar neq
    by (simp add: find_instruction_erase find_instruction_replace_uses find_instruction_add)
  have keep: "find_instruction (erase ?c5 h) w = None \<or> has_uses (erase ?c5 h) w"
    if w: "w \<in> set (operands (replace_operand ds (Suc ?n) ar))" for w
  proof -
    have "w \<in> set (operands (replace_operand ds (Suc ?n) ars))"
      using w ops by (simp add: replace_operand_def)
    moreover have "(?n, ars) \<in> set (instructions ?c2)"
      by (simp add: add_instruction_def)
    ultimately have "?n \<in> set (users ?c3 w)"
      by (rule users_mem [OF instructions_replace_uses_mem, rotated])
    then have "?n \<in> set (users (erase ?c5 h) w)"
      using lt by (simp add: set_users_erase)
    then show ?thesis by (auto simp: has_uses_def)
  qed
  have C: "RemoveInstructionAndUnusedOperands ?c5 h = (None, erase ?c5 h)"
    using fh uh rh keep
    by (simp add: RemoveInstructionAndUnusedOperands_def has_uses_def prune_noop)
  show ?thesis
    by (simp add: RemoveDead_def and_then_def A B B2 C)
qed

lemma int64_rem_pos: "0 < b \<Longrightarrow> int64_rem a b = Some (a smod b)"
  by (simp add: int64_rem_def)

lemma int64_div_pos: "0 < b \<Longrightarrow> int64_div a b = Some (a sdiv b)"
  by (simp add: int64_div_def)

lemma AcceptedMatch_dimension:
  assumes "AcceptedMatch c h sp" "find_instruction c h = Some ar"
  shows "dimension (shape ar) (split_dim sp) = Some (dimensions (shape ar) ! nat (split_dim sp))"
    and "0 < group_size sp"
  using assms by (auto simp: AcceptedMatch_def dimension_def split: option.splits)

lemma Rewrite_check_fails:
  assumes "dimension (shape ar) (split_dim sp) = Some d" "0 < group_size sp"
    "d smod group_size sp \<noteq> 0"
  shows "Rewrite h ar sp st = (Some Internal, st)"
  using assms by (simp add: Rewrite_def int64_rem_pos int64_div_pos)

lemma Rewrite_direct:
  assumes wf: "wf_computation (comp st)"
    and ar: "find_instruction (comp st) h = Some ar"
    and acc: "AcceptedMatch (comp st) h sp"
    and ds: "find_instruction (comp st) (dynamic_slice sp) = Some dsi"
    and op0: "operands dsi = h # rest"
    and d: "dimension (shape ar) (split_dim sp) = Some d"
    and dvd: "d smod group_size sp = 0"
    and ars: "ars = CreateAllReduceScatter
                (set_dimensions (shape ar) (split_dim sp) (d sdiv group_size sp))
                (operands ar) (to_apply ar) (replica_groups ar) (constrain_layout ar)
                (if channel_id ar \<noteq> None then Some (next_channel_id st) else None)
                (use_global_device_ids ar) (split_dim sp)"
  shows "Rewrite h ar sp st =
         (None,
          \<lparr>comp = erase (erase (replace_uses (add_instruction (comp st) ars)
                                  (dynamic_slice sp) (next_handle (comp st)))
                           (dynamic_slice sp)) h,
           next_channel_id = (if channel_id ar \<noteq> None then int64_wrap (next_channel_id st + 1)
                              else next_channel_id st),
           changed = True\<rparr>)"
proof -
  let ?c = "comp st" and ?ds = "dynamic_slice sp"
  have g: "0 < group_size sp"
    using acc ar by (rule AcceptedMatch_dimension)
  have facts: "users ?c h = [?ds]" "root_instruction ?c \<noteq> h"
    "opcode ar = kAllReduce" "opcode dsi = kDynamicSlice"
    using acc ar ds op0 by (auto simp: AcceptedMatch_def)
  then have neq: "?ds \<noteq> h"
    using ar ds by auto
  have fresh: "find_instruction ?c (next_handle ?c) = None"
    using wf by (rule find_instruction_fresh)
  have add: "AddReplacement ?c h ar ?ds ars = Some (None, next_handle ?c, add_instruction ?c ars)"
    using ds op0 by (simp add: AddReplacement_def AddInstruction_def find_instruction_add)
  have "operands ars = operands ar"
    by (simp add: ars CreateAllReduceScatter_def)
  from RemoveDead_direct [OF wf ar ds facts(1,2) neq this]
  show ?thesis
    using d g dvd add
    by (simp add: Rewrite_def int64_rem_pos int64_div_pos ars Let_def)
qed

lemma Rewrite_reshape:
  assumes wf: "wf_computation (comp st)"
    and ar: "find_instruction (comp st) h = Some ar"
    and acc: "AcceptedMatch (comp st) h sp"
    and ds: "find_instruction (comp st) (dynamic_slice sp) = Some dsi"
    and op0: "operands dsi = r # rest" "r \<noteq> h"
    and d: "dimension (shape ar) (split_dim sp) = Some d"
    and dvd: "d smod group_size sp = 0"
    and ars: "ars = CreateAllReduceScatter
                (set_dimensions (shape ar) (split_dim sp) (d sdiv group_size sp))
                (operands ar) (to_apply ar) (replica_groups ar) (constrain_layout ar)
                (if channel_id ar \<noteq> None then Some (next_channel_id st) else None)
                (use_global_device_ids ar) (split_dim sp)"
  shows "Rewrite h ar sp st =
         (None,
          \<lparr>comp = erase (erase (erase
                    (replace_uses
                       (add_instruction (add_instruction (comp st) ars)
                          (CreateReshape (shape dsi) (next_handle (comp st))))
                       (dynamic_slice sp) (Suc (next_handle (comp st))))
                    (dynamic_slice sp)) r) h,
           next_channel_id = (if channel_id ar \<noteq> None then int64_wrap (next_channel_id st + 1)
                              else next_channel_id st),
           changed = True\<rparr>)"
proof -
  let ?c = "comp st" and ?ds = "dynamic_slice sp"
  have g: "0 < group_size sp"
    using acc ar by (rule AcceptedMatch_dimension)
  obtain ri where facts: "find_instruction ?c r = Some ri" "opcode ri = kReshape"
    "users ?c h = [r]" "users ?c r = [?ds]" "root_instruction ?c \<noteq> h"
    "root_instruction ?c \<noteq> r"
    "opcode ar = kAllReduce" "opcode dsi = kDynamicSlice"
    using acc ar ds op0 by (auto simp: AcceptedMatch_def split: option.splits)
  then have neq: "?ds \<noteq> h" "r \<noteq> ?ds"
    using ar ds by auto
  have add: "AddReplacement ?c h ar ?ds ars =
             Some (Some r, Suc (next_handle ?c),
                   add_instruction (add_instruction ?c ars)
                     (CreateReshape (shape dsi) (next_handle ?c)))"
    using ds op0 by (simp add: AddReplacement_def AddInstruction_def find_instruction_add)
  have "operands ars = operands ar"
    by (simp add: ars CreateAllReduceScatter_def)
  moreover have "operands (CreateReshape (shape dsi) (next_handle ?c)) = [next_handle ?c]"
    by (simp add: CreateReshape_def)
  ultimately show ?thesis
    using RemoveDead_reshape [OF wf ar ds facts(1,3,4,5,6) neq(1) op0(2) neq(2)]
      d g dvd add
    by (simp add: Rewrite_def int64_rem_pos int64_div_pos ars Let_def)
qed

lemma Run_instruction_accepted:
  assumes "find_instruction (comp st) h = Some ar"
    and "opcode ar = kAllReduce"
    and "M (comp st) h partitions replicas False True = Some sp"
  shows "Run_instruction M partitions replicas h st = Rewrite h ar sp st"
  using assms by (simp add: Run_instruction_def)

lemma AcceptedMatch_opcode:
  "AcceptedMatch c h sp \<Longrightarrow> find_instruction c h = Some ar \<Longrightarrow> opcode ar = kAllReduce"
  by (auto simp: AcceptedMatch_def split: option.splits)

lemma AcceptedMatch_slice:
  assumes "AcceptedMatch c h sp"
  obtains dsi operand0 rest where
    "find_instruction c (dynamic_slice sp) = Some dsi" "operands dsi = operand0 # rest"
    "opcode dsi = kDynamicSlice"
  using assms by (auto simp: AcceptedMatch_def split: option.splits list.splits)


text \<open>The three ways the rewrite of an accepted match can end.\<close>

lemma Rewrite_cases:
  assumes wf: "wf_computation (comp st)"
    and ar: "find_instruction (comp st) h = Some ar"
    and acc: "AcceptedMatch (comp st) h sp"
  obtains
    (check) d where "dimension (shape ar) (split_dim sp) = Some d"
      "d smod group_size sp \<noteq> 0" "Rewrite h ar sp st = (Some Internal, st)"
  | (direct) d dsi rest where "dimension (shape ar) (split_dim sp) = Some d"
      "d smod group_size sp = 0"
      "0 < group_size sp"
      "find_instruction (comp st) (dynamic_slice sp) = Some dsi"
      "operands dsi = h # rest"
      "Rewrite h ar sp st =
         (None,
          \<lparr>comp = erase (erase (replace_uses
                     (add_instruction (comp st)
                        (CreateAllReduceScatter
                           (set_dimensions (shape ar) (split_dim sp) (d sdiv group_size sp))
                           (operands ar) (to_apply ar) (replica_groups ar) (constrain_layout ar)
                           (if channel_id ar \<noteq> None then Some (next_channel_id st) else None)
                           (use_global_device_ids ar) (split_dim sp)))
                     (dynamic_slice sp) (next_handle (comp st)))
                   (dynamic_slice sp)) h,
           next_channel_id = (if channel_id ar \<noteq> None then int64_wrap (next_channel_id st + 1)
                              else next_channel_id st),
           changed = True\<rparr>)"
  | (reshape) d dsi r rest where "dimension (shape ar) (split_dim sp) = Some d"
      "d smod group_size sp = 0"
      "0 < group_size sp"
      "find_instruction (comp st) (dynamic_slice sp) = Some dsi"
      "operands dsi = r # rest" "r \<noteq> h"
      "Rewrite h ar sp st =
         (None,
          \<lparr>comp = erase (erase (erase (replace_uses
                     (add_instruction
                        (add_instruction (comp st)
                           (CreateAllReduceScatter
                              (set_dimensions (shape ar) (split_dim sp) (d sdiv group_size sp))
                              (operands ar) (to_apply ar) (replica_groups ar)
                              (constrain_layout ar)
                              (if channel_id ar \<noteq> None then Some (next_channel_id st) else None)
                              (use_global_device_ids ar) (split_dim sp)))
                        (CreateReshape (shape dsi) (next_handle (comp st))))
                     (dynamic_slice sp) (Suc (next_handle (comp st))))
                   (dynamic_slice sp)) r) h,
           next_channel_id = (if channel_id ar \<noteq> None then int64_wrap (next_channel_id st + 1)
                              else next_channel_id st),
           changed = True\<rparr>)"
proof -
  from acc ar have d: "dimension (shape ar) (split_dim sp)
      = Some (dimensions (shape ar) ! nat (split_dim sp))" and g: "0 < group_size sp"
    by (rule AcceptedMatch_dimension)+
  let ?d = "dimensions (shape ar) ! nat (split_dim sp)"
  from acc obtain dsi operand0 rest where
    ds: "find_instruction (comp st) (dynamic_slice sp) = Some dsi"
    and ops: "operands dsi = operand0 # rest"
    by (rule AcceptedMatch_slice)
  show ?thesis
  proof (cases "?d smod group_size sp = 0")
    case False
    then show ?thesis
      using check [OF d] Rewrite_check_fails [OF d g] by blast
  next
    case dvd: True
    show ?thesis
    proof (cases "operand0 = h")
      case True
      with ops have ops': "operands dsi = h # rest" by simp
      show ?thesis
        by (rule direct [OF d dvd g ds ops'])
           (rule Rewrite_direct [OF wf ar acc ds ops' d dvd refl])
    next
      case False
      show ?thesis
        by (rule reshape [OF d dvd g ds ops False])
           (rule Rewrite_reshape [OF wf ar acc ds ops False d dvd refl])
    qed
  qed
qed


lemma find_instruction_above:
  "wf_computation c \<Longrightarrow> next_handle c \<le> k \<Longrightarrow> find_instruction c k = None"
  by (cases "find_instruction c k") (auto dest: find_instruction_lt)

lemma find_rewritten_direct:
  assumes wf: "wf_computation c" and lt: "h < next_handle c" "ds < next_handle c"
  shows "find_instruction
           (erase (erase (replace_uses (add_instruction c ars) ds (next_handle c)) ds) h) k =
         (if k = h \<or> k = ds then None
          else if k = next_handle c then Some (replace_operand ds (next_handle c) ars)
          else map_option (replace_operand ds (next_handle c)) (find_instruction c k))"
  using lt find_instruction_fresh [OF wf]
  by (auto simp: find_instruction_erase find_instruction_replace_uses find_instruction_add
      split: option.splits)

lemma find_rewritten_reshape:
  assumes wf: "wf_computation c"
    and lt: "h < next_handle c" "ds < next_handle c" "r < next_handle c"
  shows "find_instruction
           (erase (erase (erase (replace_uses (add_instruction (add_instruction c ars) rs)
                                   ds (Suc (next_handle c))) ds) r) h) k =
         (if k = h \<or> k = ds \<or> k = r then None
          else if k = next_handle c then Some (replace_operand ds (Suc (next_handle c)) ars)
          else if k = Suc (next_handle c)
            then Some (replace_operand ds (Suc (next_handle c)) rs)
          else map_option (replace_operand ds (Suc (next_handle c))) (find_instruction c k))"
  using lt find_instruction_fresh [OF wf] find_instruction_above [OF wf, of "Suc (next_handle c)"]
  by (auto simp: find_instruction_erase find_instruction_replace_uses find_instruction_add
      split: option.splits)


section \<open>The claims\<close>


lemma pair_fst_None: "fst x = None \<Longrightarrow> x = (None, snd x)"
  by (cases x) simp



lemma Run_instruction_skip:
  assumes "\<And>ar. find_instruction (comp st) h = Some ar \<Longrightarrow> opcode ar = kAllReduce \<Longrightarrow>
             M (comp st) h partitions replicas False True = None"
  shows "Run_instruction M partitions replicas h st = (None, st)"
  using assms by (auto simp: Run_instruction_def split: option.splits)

lemma Run_instructions_skip:
  assumes "\<And>h ar. h \<in> set hs \<Longrightarrow> find_instruction (comp st) h = Some ar \<Longrightarrow>
             opcode ar = kAllReduce \<Longrightarrow> M (comp st) h partitions replicas False True = None"
  shows "Run_instructions M partitions replicas hs st = (None, st)"
  using assms
proof (induction hs)
  case Nil
  then show ?case by simp
next
  case (Cons h hs)
  have "Run_instruction M partitions replicas h st = (None, st)"
    by (rule Run_instruction_skip) (rule Cons.prems, simp_all)
  moreover have "Run_instructions M partitions replicas hs st = (None, st)"
    by (rule Cons.IH) (rule Cons.prems, simp_all)
  ultimately show ?case by simp
qed

lemma Run_computations_skip:
  assumes "\<And>k h ar. k \<in> set ks \<Longrightarrow> k < length (computations m) \<Longrightarrow>
             find_instruction (computations m ! k) h = Some ar \<Longrightarrow> opcode ar = kAllReduce \<Longrightarrow>
             M (computations m ! k) h partitions replicas False True = None"
  shows "Run_computations M partitions replicas ks m next chg = (Inr chg, m)"
  using assms
proof (induction ks)
  case Nil
  then show ?case by simp
next
  case (Cons k ks)
  have rest: "Run_computations M partitions replicas ks m next chg = (Inr chg, m)"
    by (rule Cons.IH) (rule Cons.prems, simp_all)
  show ?case
  proof (cases "length (computations m) \<le> k")
    case True
    with rest show ?thesis by simp
  next
    case False
    let ?st = "\<lparr>comp = computations m ! k, next_channel_id = next, changed = chg\<rparr>"
    have "Run_instructions M partitions replicas
            (MakeInstructionPostOrder (computations m ! k)) ?st = (None, ?st)"
      by (rule Run_instructions_skip) (use False in \<open>auto intro: Cons.prems\<close>)
    with False rest show ?thesis by simp
  qed
qed

lemma MakeNonfusionComputations_mem:
  "k \<in> set (MakeNonfusionComputations m) \<longleftrightarrow>
   k < length (computations m) \<and> \<not> IsFusionComputation (computations m ! k)"
  by (auto simp: MakeNonfusionComputations_def)

text \<open>
  C9. A module none of whose non-fusion computations holds an all-reduce is left as it
  is, whatever the matcher: \<open>Run\<close> returns \<open>changed = false\<close> and the same module.
\<close>

theorem no_all_reduce_no_change:
  assumes "\<forall>k < length (computations m). \<not> IsFusionComputation (computations m ! k) \<longrightarrow>
             (\<forall>(h, i) \<in> set (instructions (computations m ! k)). opcode i \<noteq> kAllReduce)"
  shows "Run M m = (Inr False, m)"
proof -
  have "M (computations m ! k) h (num_partitions (config m)) (replica_count (config m))
          False True = None"
    if "k \<in> set (MakeNonfusionComputations m)"
      and "find_instruction (computations m ! k) h = Some ar" and "opcode ar = kAllReduce"
    for k h ar
  proof -
    from that(2) have "(h, ar) \<in> set (instructions (computations m ! k))"
      by (rule find_instruction_mem)
    with assms that(1,3) show ?thesis
      by (auto simp: MakeNonfusionComputations_mem)
  qed
  then show ?thesis
    by (simp add: Run_def Run_computations_skip)
qed

theorem no_all_reduce_no_change_witness:
  "list_all (\<lambda>c. IsFusionComputation c \<or>
               list_all (\<lambda>(h, i). opcode i \<noteq> kAllReduce) (instructions c))
     (computations (snd (Run MatchAllReduceScatter AllReplicas))) \<and>
   Run MatchAllReduceScatter (snd (Run MatchAllReduceScatter AllReplicas)) =
     (Inr False, snd (Run MatchAllReduceScatter AllReplicas))"
proof -
  let ?m = "snd (Run MatchAllReduceScatter AllReplicas)"
  have none: "list_all (\<lambda>c. IsFusionComputation c \<or>
                 list_all (\<lambda>(h, i). opcode i \<noteq> kAllReduce) (instructions c))
               (computations ?m)"
    by code_simp
  then have "\<forall>c \<in> set (computations ?m). IsFusionComputation c \<or>
      (\<forall>(h, i) \<in> set (instructions c). opcode i \<noteq> kAllReduce)"
    by (simp add: list_all_iff)
  then have hyp: "\<forall>k < length (computations ?m).
      \<not> IsFusionComputation (computations ?m ! k) \<longrightarrow>
      (\<forall>(h, i) \<in> set (instructions (computations ?m ! k)). opcode i \<noteq> kAllReduce)"
    using nth_mem by blast
  from no_all_reduce_no_change [OF hyp] none show ?thesis
    by blast
qed

lemma mem_erase:
  "(k, j) \<in> set (instructions (erase c h)) \<longleftrightarrow> k \<noteq> h \<and> (k, j) \<in> set (instructions c)"
  by (auto simp: erase_def)

lemma mem_replace_uses:
  "(k, j) \<in> set (instructions (replace_uses c old new)) \<longleftrightarrow>
   (\<exists>i. (k, i) \<in> set (instructions c) \<and> j = replace_operand old new i)"
  by (auto simp: replace_uses_def)

lemma mem_add:
  "(k, j) \<in> set (instructions (add_instruction c i)) \<longleftrightarrow>
   (k, j) \<in> set (instructions c) \<or> (k = next_handle c \<and> j = i)"
  by (auto simp: add_instruction_def)

lemma mem_unique:
  "wf_computation c \<Longrightarrow> find_instruction c k = Some i \<Longrightarrow>
   (k, j) \<in> set (instructions c) \<Longrightarrow> j = i"
  by (simp add: wf_computation_def find_instruction_def)


lemma replace_operand_fields [simp]:
  "channel_id (replace_operand old new i) = channel_id i"
  "opcode (replace_operand old new i) = opcode i"
  "shape (replace_operand old new i) = shape i"
  by (simp_all add: replace_operand_def)

lemma channel_ids_add:
  "channel_ids (add_instruction c i) =
   channel_ids c @ (case channel_id i of None \<Rightarrow> [] | Some k \<Rightarrow> [k])"
  by (simp add: channel_ids_def add_instruction_def)

lemma channel_ids_replace_uses:
  "channel_ids (replace_uses c old new) = channel_ids c"
proof -
  have "(\<lambda>(h, i). case channel_id i of None \<Rightarrow> [] | Some k \<Rightarrow> [k]) \<circ>
          (\<lambda>(h, i). (h, replace_operand old new i))
        = (\<lambda>(h :: nat, i). case channel_id i of None \<Rightarrow> [] | Some k \<Rightarrow> [k])"
    by (auto simp: fun_eq_iff)
  then show ?thesis
    by (simp add: channel_ids_def replace_uses_def)
qed

lemma channel_ids_erase:
  assumes "\<And>i. (h, i) \<in> set (instructions c) \<Longrightarrow> channel_id i = None"
  shows "channel_ids (erase c h) = channel_ids c"
proof -
  have "concat (map (\<lambda>(h, i). case channel_id i of None \<Rightarrow> [] | Some k \<Rightarrow> [k])
                  (filter (\<lambda>(k, i). k \<noteq> h) xs))
        = concat (map (\<lambda>(h, i). case channel_id i of None \<Rightarrow> [] | Some k \<Rightarrow> [k]) xs)"
    if "\<And>i. (h, i) \<in> set xs \<Longrightarrow> channel_id i = None"
    for xs :: "(nat \<times> HloInstruction) list"
    using that by (induction xs) auto
  with assms show ?thesis
    by (simp add: channel_ids_def erase_def)
qed

lemma wf_channel:
  "wf_computation c \<Longrightarrow> find_instruction c k = Some i \<Longrightarrow>
   \<not> IsChannelInstruction (opcode i) \<Longrightarrow> channel_id i = None"
  by (auto simp: wf_computation_def dest!: find_instruction_mem)

lemma AcceptedMatch_reshape:
  assumes "AcceptedMatch c h sp" "find_instruction c (dynamic_slice sp) = Some dsi"
    "operands dsi = r # rest" "r \<noteq> h"
  obtains ri where "find_instruction c r = Some ri" "opcode ri = kReshape"
  using assms by (auto simp: AcceptedMatch_def split: option.splits)

text \<open>
  C10. When the all-reduce of an accepted match carries no channel id, the rewrite adds
  an all-reduce-scatter without a channel id, leaves the counter \<open>next_channel_id\<close> as
  it was, and the channel ids in use in the computation are the same before and after.
\<close>

theorem no_channel_id_no_new_id:
  assumes wf: "wf_computation (comp st)"
    and ar: "find_instruction (comp st) h = Some ar"
    and match: "M (comp st) h partitions replicas False True = Some sp"
    and acc: "AcceptedMatch (comp st) h sp"
    and none: "channel_id ar = None"
    and run: "Run_instruction M partitions replicas h st = (None, st')"
  shows "next_channel_id st' = next_channel_id st \<and>
         (\<exists>ars. find_instruction (comp st') (next_handle (comp st)) = Some ars \<and>
                opcode ars = kAllReduceScatter \<and> channel_id ars = None) \<and>
         channel_ids (comp st') = channel_ids (comp st)"
proof -
  let ?c = "comp st" and ?ds = "dynamic_slice sp"
  have run': "Rewrite h ar sp st = (None, st')"
    using run ar match AcceptedMatch_opcode [OF acc ar] by (simp add: Run_instruction_def)
  have hlt: "h < next_handle ?c"
    using wf ar by (rule find_instruction_lt)
  have har: "channel_id j = None" if "(h, j) \<in> set (instructions ?c)" for j
    using mem_unique [OF wf ar that] none by simp
  from wf ar acc show ?thesis
  proof (cases rule: Rewrite_cases)
    case (check d)
    with run' show ?thesis by simp
  next
    case (direct d dsi rest)
    have dlt: "?ds < next_handle ?c"
      using wf direct(4) by (rule find_instruction_lt)
    have "opcode dsi = kDynamicSlice"
      using acc direct(4) by (auto simp: AcceptedMatch_def split: option.splits)
    then have "channel_id dsi = None"
      using wf_channel [OF wf direct(4)] by (simp add: IsChannelInstruction_def)
    then have hds: "channel_id j = None" if "(?ds, j) \<in> set (instructions ?c)" for j
      using mem_unique [OF wf direct(4) that] by simp
    from direct(6) run' none have st': "st' =
          \<lparr>comp = erase (erase (replace_uses
                     (add_instruction ?c
                        (CreateAllReduceScatter
                           (set_dimensions (shape ar) (split_dim sp) (d sdiv group_size sp))
                           (operands ar) (to_apply ar) (replica_groups ar) (constrain_layout ar)
                           None (use_global_device_ids ar) (split_dim sp)))
                     ?ds (next_handle ?c)) ?ds) h,
           next_channel_id = next_channel_id st, changed = True\<rparr>"
      by simp
    have "channel_ids (comp st') = channel_ids ?c"
      unfolding st' RunState.simps
      apply (subst channel_ids_erase)
      subgoal using hlt by (auto simp: mem_erase mem_replace_uses mem_add dest: har)
      apply (subst channel_ids_erase)
      subgoal using dlt by (auto simp: mem_erase mem_replace_uses mem_add dest: hds)
      apply (simp add: channel_ids_replace_uses channel_ids_add CreateAllReduceScatter_def)
      done
    then show ?thesis
      using hlt dlt find_instruction_fresh [OF wf]
      by (simp add: st' find_rewritten_direct [OF wf hlt dlt] CreateAllReduceScatter_def)
  next
    case (reshape d dsi r rest)
    have dlt: "?ds < next_handle ?c"
      using wf reshape(4) by (rule find_instruction_lt)
    have "opcode dsi = kDynamicSlice"
      using acc reshape(4) by (auto simp: AcceptedMatch_def split: option.splits)
    then have "channel_id dsi = None"
      using wf_channel [OF wf reshape(4)] by (simp add: IsChannelInstruction_def)
    then have hds: "channel_id j = None" if "(?ds, j) \<in> set (instructions ?c)" for j
      using mem_unique [OF wf reshape(4) that] by simp
    from acc reshape(4,5,6) obtain ri where ri: "find_instruction ?c r = Some ri"
      "opcode ri = kReshape"
      by (rule AcceptedMatch_reshape)
    then have rlt: "r < next_handle ?c"
      using wf by (auto dest: find_instruction_lt)
    have "channel_id ri = None"
      using wf_channel [OF wf ri(1)] ri(2) by (simp add: IsChannelInstruction_def)
    then have hr: "channel_id j = None" if "(r, j) \<in> set (instructions ?c)" for j
      using mem_unique [OF wf ri(1) that] by simp
    from reshape(7) run' none have st': "st' =
          \<lparr>comp = erase (erase (erase (replace_uses
                     (add_instruction
                        (add_instruction ?c
                           (CreateAllReduceScatter
                              (set_dimensions (shape ar) (split_dim sp) (d sdiv group_size sp))
                              (operands ar) (to_apply ar) (replica_groups ar)
                              (constrain_layout ar) None
                              (use_global_device_ids ar) (split_dim sp)))
                        (CreateReshape (shape dsi) (next_handle ?c)))
                     ?ds (Suc (next_handle ?c))) ?ds) r) h,
           next_channel_id = next_channel_id st, changed = True\<rparr>"
      by simp
    have "channel_ids (comp st') = channel_ids ?c"
      unfolding st' RunState.simps
      apply (subst channel_ids_erase)
      subgoal using hlt by (auto simp: mem_erase mem_replace_uses mem_add dest: har)
      apply (subst channel_ids_erase)
      subgoal using rlt by (auto simp: mem_erase mem_replace_uses mem_add dest: hr)
      apply (subst channel_ids_erase)
      subgoal using dlt by (auto simp: mem_erase mem_replace_uses mem_add dest: hds)
      apply (simp add: channel_ids_replace_uses channel_ids_add CreateAllReduceScatter_def
          CreateReshape_def)
      done
    then show ?thesis
      using hlt dlt rlt find_instruction_fresh [OF wf]
      by (simp add: st' find_rewritten_reshape [OF wf hlt dlt rlt] CreateAllReduceScatter_def)
  qed
qed

theorem no_channel_id_no_new_id_witness:
  "wf_computation (comp (entry_state AllReplicas)) \<and>
   AcceptedMatch (comp (entry_state AllReplicas)) 1
     \<lparr>split_dim = 0, group_size = 8, dynamic_slice = 9\<rparr> \<and>
   channel_id (all_reduce [32, 8, 128] [0] [] None False) = None \<and>
   next_channel_id (snd (Run_instruction MatchAllReduceScatter 1 8 1 (entry_state AllReplicas)))
     = next_channel_id (entry_state AllReplicas) \<and>
   channel_ids (comp (snd (Run_instruction MatchAllReduceScatter 1 8 1 (entry_state AllReplicas))))
     = channel_ids (comp (entry_state AllReplicas))"
proof -
  let ?st = "entry_state AllReplicas"
  let ?ar = "all_reduce [32, 8, 128] [0] [] None False"
  let ?sp = "\<lparr>split_dim = 0, group_size = 8, dynamic_slice = 9\<rparr>"
  have wf: "wf_computation (comp ?st)"
    by code_simp
  have ar: "find_instruction (comp ?st) 1 = Some ?ar"
    by code_simp
  have match: "MatchAllReduceScatter (comp ?st) 1 1 8 False True = Some ?sp"
    by code_simp
  have acc: "AcceptedMatch (comp ?st) 1 ?sp"
    by code_simp
  have none: "channel_id ?ar = None"
    by code_simp
  have "fst (Run_instruction MatchAllReduceScatter 1 8 1 ?st) = None"
    by code_simp
  then have run: "Run_instruction MatchAllReduceScatter 1 8 1 ?st =
      (None, snd (Run_instruction MatchAllReduceScatter 1 8 1 ?st))"
    by (rule pair_fst_None)
  from no_channel_id_no_new_id [OF wf ar match acc none run] wf acc none
  show ?thesis
    by blast
qed


lemma pair_None_eq: "x = (None, y) \<Longrightarrow> fst x = None \<and> snd x = y"
  by simp

text \<open>
  C5. When the dynamic slice of an accepted match reads a reshape of the all-reduce,
  the rewrite adds, on top of the new all-reduce-scatter, a reshape whose shape is the
  shape of the dynamic slice, and every use of the dynamic slice (operand references
  and the root designation) moves to that reshape. When the dynamic slice reads the
  all-reduce itself, no reshape is added and its uses move to the all-reduce-scatter.
  The dynamic slice is gone in both cases.
\<close>

theorem slice_uses_replaced:
  assumes wf: "wf_computation (comp st)"
    and ar: "find_instruction (comp st) h = Some ar"
    and match: "M (comp st) h partitions replicas False True = Some sp"
    and acc: "AcceptedMatch (comp st) h sp"
    and ds: "find_instruction (comp st) (dynamic_slice sp) = Some dsi"
    and ops: "operands dsi = operand0 # rest"
    and run: "Run_instruction M partitions replicas h st = (None, st')"
  shows "find_instruction (comp st') (dynamic_slice sp) = None \<and>
         (\<exists>ars. find_instruction (comp st') (next_handle (comp st)) = Some ars \<and>
                opcode ars = kAllReduceScatter) \<and>
         (if operand0 \<noteq> h then
            (\<exists>rs. find_instruction (comp st') (Suc (next_handle (comp st))) = Some rs \<and>
                  opcode rs = kReshape \<and> shape rs = shape dsi \<and>
                  operands rs = [next_handle (comp st)]) \<and>
            root_instruction (comp st') =
              (if root_instruction (comp st) = dynamic_slice sp
               then Suc (next_handle (comp st)) else root_instruction (comp st)) \<and>
            (\<forall>k i. find_instruction (comp st) k = Some i \<and> k \<noteq> h \<and>
                   k \<noteq> dynamic_slice sp \<and> k \<noteq> operand0 \<longrightarrow>
                   find_instruction (comp st') k =
                     Some (replace_operand (dynamic_slice sp) (Suc (next_handle (comp st))) i))
          else
            find_instruction (comp st') (Suc (next_handle (comp st))) = None \<and>
            root_instruction (comp st') =
              (if root_instruction (comp st) = dynamic_slice sp
               then next_handle (comp st) else root_instruction (comp st)) \<and>
            (\<forall>k i. find_instruction (comp st) k = Some i \<and> k \<noteq> h \<and>
                   k \<noteq> dynamic_slice sp \<longrightarrow>
                   find_instruction (comp st') k =
                     Some (replace_operand (dynamic_slice sp) (next_handle (comp st)) i)))"
proof -
  let ?c = "comp st" and ?ds = "dynamic_slice sp"
  have run': "Rewrite h ar sp st = (None, st')"
    using run ar match AcceptedMatch_opcode [OF acc ar] by (simp add: Run_instruction_def)
  have hlt: "h < next_handle ?c"
    using wf ar by (rule find_instruction_lt)
  have dlt: "?ds < next_handle ?c"
    using wf ds by (rule find_instruction_lt)
  have above: "find_instruction ?c (Suc (next_handle ?c)) = None"
    using wf by (simp add: find_instruction_above)
  have fresh: "find_instruction ?c (next_handle ?c) = None"
    using wf by (rule find_instruction_fresh)
  have old: "k \<noteq> next_handle ?c \<and> k \<noteq> Suc (next_handle ?c)"
    if "find_instruction ?c k = Some i" for k i
    using find_instruction_lt [OF wf that] by simp
  from wf ar acc show ?thesis
  proof (cases rule: Rewrite_cases)
    case (check d)
    with run' show ?thesis by simp
  next
    case (direct d dsi' rest')
    with ds ops have op0: "operand0 = h" by simp
    from direct(6) run' have c': "comp st' = erase (erase (replace_uses
                     (add_instruction ?c
                        (CreateAllReduceScatter
                           (set_dimensions (shape ar) (split_dim sp) (d sdiv group_size sp))
                           (operands ar) (to_apply ar) (replica_groups ar) (constrain_layout ar)
                           (if channel_id ar \<noteq> None then Some (next_channel_id st) else None)
                           (use_global_device_ids ar) (split_dim sp)))
                     ?ds (next_handle ?c)) ?ds) h"
      by auto
    show ?thesis
      using hlt dlt above fresh op0
      by (auto simp: c' find_rewritten_direct [OF wf hlt dlt] root_replace_uses
          CreateAllReduceScatter_def dest: old)
  next
    case (reshape d dsi' r rest')
    with ds ops have op0: "operand0 = r" "operand0 \<noteq> h" "dsi' = dsi" by simp_all
    from acc reshape(4,5,6) obtain ri where ri: "find_instruction ?c r = Some ri"
      by (rule AcceptedMatch_reshape)
    then have rlt: "r < next_handle ?c"
      using wf by (auto dest: find_instruction_lt)
    from reshape(7) run' have c': "comp st' = erase (erase (erase (replace_uses
                     (add_instruction
                        (add_instruction ?c
                           (CreateAllReduceScatter
                              (set_dimensions (shape ar) (split_dim sp) (d sdiv group_size sp))
                              (operands ar) (to_apply ar) (replica_groups ar)
                              (constrain_layout ar)
                              (if channel_id ar \<noteq> None then Some (next_channel_id st) else None)
                              (use_global_device_ids ar) (split_dim sp)))
                        (CreateReshape (shape dsi) (next_handle ?c)))
                     ?ds (Suc (next_handle ?c))) ?ds) r) h"
      using op0 by auto
    show ?thesis
      using hlt dlt rlt above fresh op0
      by (auto simp: c' find_rewritten_reshape [OF wf hlt dlt rlt] root_replace_uses
          CreateAllReduceScatter_def CreateReshape_def replace_operand_def dest: old)
  qed
qed

theorem slice_uses_replaced_witness:
  "wf_computation (comp (entry_state AllReplicasWithReshape)) \<and>
   AcceptedMatch (comp (entry_state AllReplicasWithReshape)) 1
     \<lparr>split_dim = 0, group_size = 8, dynamic_slice = 10\<rparr> \<and>
   find_instruction
     (comp (snd (Run_instruction MatchAllReduceScatter 1 8 1 (entry_state AllReplicasWithReshape))))
     10 = None \<and>
   (\<exists>rs. find_instruction
       (comp (snd (Run_instruction MatchAllReduceScatter 1 8 1
                     (entry_state AllReplicasWithReshape)))) 12 = Some rs \<and>
      opcode rs = kReshape \<and> dimensions (shape rs) = [4, 16, 64] \<and> operands rs = [11]) \<and>
   root_instruction
     (comp (snd (Run_instruction MatchAllReduceScatter 1 8 1 (entry_state AllReplicasWithReshape))))
     = 12"
proof -
  let ?st = "entry_state AllReplicasWithReshape"
  let ?ar = "all_reduce [32, 8, 128] [0] [] None False"
  let ?ds = "instr kDynamicSlice F32 [4, 16, 64] [9, 7, 8, 8]"
  let ?sp = "\<lparr>split_dim = 0, group_size = 8, dynamic_slice = 10\<rparr>"
  have wf: "wf_computation (comp ?st)"
    by code_simp
  have ar: "find_instruction (comp ?st) 1 = Some ?ar"
    by code_simp
  have match: "MatchAllReduceScatter (comp ?st) 1 1 8 False True = Some ?sp"
    by code_simp
  have acc: "AcceptedMatch (comp ?st) 1 ?sp"
    by code_simp
  have ds: "find_instruction (comp ?st) (dynamic_slice ?sp) = Some ?ds"
    by code_simp
  have ops: "operands ?ds = 9 # [7, 8, 8]"
    by code_simp
  have "fst (Run_instruction MatchAllReduceScatter 1 8 1 ?st) = None"
    by code_simp
  then have run: "Run_instruction MatchAllReduceScatter 1 8 1 ?st =
      (None, snd (Run_instruction MatchAllReduceScatter 1 8 1 ?st))"
    by (rule pair_fst_None)
  have vals: "next_handle (comp ?st) = 11" "root_instruction (comp ?st) = 10"
    "dynamic_slice ?sp = 10" "dimensions (shape ?ds) = [4, 16, 64]"
    by code_simp+
  from slice_uses_replaced [OF wf ar match acc ds ops run] wf acc
  show ?thesis
    unfolding vals by (auto simp: vals)
qed


lemma AcceptedMatch_direct_facts:
  assumes "AcceptedMatch c h sp" "find_instruction c h = Some ar"
    "find_instruction c (dynamic_slice sp) = Some dsi" "operands dsi = h # rest"
  shows "users c h = [dynamic_slice sp]" "root_instruction c \<noteq> h"
  using assms by (auto simp: AcceptedMatch_def)

lemma AcceptedMatch_reshape_facts:
  assumes "AcceptedMatch c h sp" "find_instruction c h = Some ar"
    "find_instruction c (dynamic_slice sp) = Some dsi" "operands dsi = r # rest" "r \<noteq> h"
  shows "users c h = [r]" "users c r = [dynamic_slice sp]" "root_instruction c \<noteq> h"
    "root_instruction c \<noteq> r"
    "find_instruction c r \<noteq> None" "r \<noteq> dynamic_slice sp"
  using assms by (auto simp: AcceptedMatch_def split: option.splits)

















lemma with_computation_simps [simp]:
  "length (computations (with_computation m k c)) = length (computations m)"
  "k < length (computations m) \<Longrightarrow>
   computations (with_computation m k c) ! k' = (if k' = k then c else computations m ! k')"
  "with_computation (with_computation m k c) k c' = with_computation m k c'"
  by (simp_all add: with_computation_def nth_list_update)

lemma with_computation_same [simp]:
  "with_computation m k (computations m ! k) = m"
  by (simp add: with_computation_def)







































subsection \<open>Idempotence\<close>

text \<open>
  The matcher modelled from the spec meets the contract of an accepted match, its answers
  are stable under a rewrite elsewhere in the computation, and the post-order holds every
  instruction. So after one run no all-reduce is matched any more.
\<close>

lemma sdiv_cancel: "0 < (a::int) \<Longrightarrow> 0 < b \<Longrightarrow> (a * b) sdiv a = b"
  by (simp add: signed_divide_int_def sgn_mult abs_mult)

lemma filter_eq_ConsD:
  assumes "filter P xs = y # ys"
  shows "y \<in> set xs \<and> P y"
proof -
  have "y \<in> set (filter P xs)"
    unfolding assms by simp
  then show ?thesis by simp
qed

lemma MatchSlice_SomeD:
  assumes "MatchSlice c h ar via ds partitions replicas = Some sp"
    and ar: "find_instruction c h = Some ar"
  obtains dsi src starts srci j where
    "find_instruction c ds = Some dsi" "opcode dsi = kDynamicSlice"
    "operands dsi = src # starts" "src = (case via of None \<Rightarrow> h | Some r \<Rightarrow> r)"
    "find_instruction c src = Some srci" "dynamic_slice sp = ds"
    "j < length (dimensions (shape srci))"
    "length (dimensions (shape dsi)) = length (dimensions (shape srci))"
    "nat (split_dim sp) < length (dimensions (shape ar))" "0 \<le> split_dim sp"
    "via = None \<longrightarrow> split_dim sp = int j"
    "0 < group_size sp"
proof -
  from assms obtain dsi groups where 1: "find_instruction c ds = Some dsi"
    "participant_groups ar partitions replicas = Some groups"
    by (auto simp: MatchSlice_def split: option.splits)
  from assms 1 obtain src starts G count where 2: "operands dsi = src # starts"
    "groupSizeAndCount groups = Some (G, count)"
    by (auto simp: MatchSlice_def split: option.splits list.splits prod.splits)
  from assms 1 2 obtain srci where 3: "find_instruction c src = Some srci"
    by (auto simp: MatchSlice_def split: option.splits)
  let ?in = "dimensions (shape srci)" and ?out = "dimensions (shape dsi)"
    and ?ar = "dimensions (shape ar)"
  from assms 1 2 3 have 4: "opcode dsi = kDynamicSlice"
    "src = (case via of None \<Rightarrow> h | Some r \<Rightarrow> r)" "length ?out = length ?in"
    by (auto simp: MatchSlice_def Let_def split: if_splits)
  from assms 1 2 3 4 obtain j where 5:
    "filter (\<lambda>j. ?in ! j \<noteq> ?out ! j) [0..<length ?in] = [j]"
    by (auto simp: MatchSlice_def Let_def split: if_splits list.splits)
  from filter_eq_ConsD [OF this] have j: "j < length ?in" by simp
  from assms 1 2 3 4 5 obtain split where 6:
    "(case via of None \<Rightarrow> Some j | Some r \<Rightarrow> unmodified_dim ?ar ?in j) = Some split"
    by (auto simp: MatchSlice_def Let_def split: if_splits option.splits)
  from assms 1 2 3 4 5 6 have 7: "0 < ?out ! j" "?ar ! split = ?out ! j * int G" "0 < G"
    "sp = \<lparr>split_dim = int split, group_size = (?ar ! split) sdiv (?out ! j),
            dynamic_slice = ds\<rparr>"
    by (auto simp: MatchSlice_def Let_def split: if_splits)
  have split_lt: "split < length ?ar"
  proof (cases via)
    case None
    with 6 4 3 j ar show ?thesis
      by simp
  next
    case (Some r)
    with 6 have "unmodified_dim ?ar ?in j = Some split" by simp
    then obtain rest where "filter (\<lambda>i. ?ar ! i = ?in ! j \<and>
        prod_list (take i ?ar) = prod_list (take j ?in)) [0..<length ?ar] = split # rest"
      by (auto simp: unmodified_dim_def split: list.splits)
    from filter_eq_ConsD [OF this] show ?thesis by simp
  qed
  have "0 < group_size sp"
    using 7 by (simp add: sdiv_cancel)
  with 1 2 3 4 j split_lt 6 7 show ?thesis
    by (intro that [of dsi src starts srci j]) (auto split: option.splits)
qed


lemma has_opcode_SomeD:
  assumes "has_opcode c h opc"
  obtains i where "find_instruction c h = Some i" "opcode i = opc"
  using assms by (auto simp: has_opcode_def split: option.splits)

lemma MatchAllReduceScatter_cases:
  assumes "MatchAllReduceScatter c h partitions replicas multi True = Some sp"
  obtains
    (direct) ar u where "find_instruction c h = Some ar" "opcode ar = kAllReduce"
      "root_instruction c \<noteq> h" "users c h = [u]" "\<not> has_opcode c u kReshape"
      "MatchSlice c h ar None u partitions replicas = Some sp"
  | (reshape) ar u v where "find_instruction c h = Some ar" "opcode ar = kAllReduce"
      "root_instruction c \<noteq> h" "users c h = [u]" "has_opcode c u kReshape"
      "root_instruction c \<noteq> u" "users c u = [v]"
      "MatchSlice c h ar (Some u) v partitions replicas = Some sp"
proof -
  from assms obtain ar where ar: "find_instruction c h = Some ar" "opcode ar = kAllReduce"
    "root_instruction c \<noteq> h"
    by (auto simp: MatchAllReduceScatter_def split: option.splits if_splits)
  with assms obtain u where u: "users c h = [u]"
    by (auto simp: MatchAllReduceScatter_def split: list.splits)
  show ?thesis
  proof (cases "has_opcode c u kReshape")
    case False
    with assms ar u have "MatchSlice c h ar None u partitions replicas = Some sp"
      by (simp add: MatchAllReduceScatter_def)
    with ar u False show ?thesis by (rule direct)
  next
    case True
    with assms ar u have root: "root_instruction c \<noteq> u"
      by (auto simp: MatchAllReduceScatter_def split: if_splits)
    with assms ar u True obtain v where v: "users c u = [v]"
      by (auto simp: MatchAllReduceScatter_def split: list.splits)
    with assms ar u True root
    have "MatchSlice c h ar (Some u) v partitions replicas = Some sp"
      by (simp add: MatchAllReduceScatter_def)
    with ar u True root v show ?thesis by (rule reshape)
  qed
qed

lemma MatchAllReduceScatter_accepted:
  assumes "MatchAllReduceScatter c h partitions replicas multi True = Some sp"
  shows "AcceptedMatch c h sp"
  using assms
proof (cases rule: MatchAllReduceScatter_cases)
  case (direct ar u)
  from direct(6,1) obtain dsi src starts srci j where
    "find_instruction c u = Some dsi" "opcode dsi = kDynamicSlice"
    "operands dsi = src # starts" "src = (case None of None \<Rightarrow> h | Some r \<Rightarrow> r)"
    "dynamic_slice sp = u"
    "nat (split_dim sp) < length (dimensions (shape ar))" "0 \<le> split_dim sp"
    "0 < group_size sp"
    by (rule MatchSlice_SomeD)
  with direct show ?thesis
    by (simp add: AcceptedMatch_def)
next
  case (reshape ar u v)
  from reshape(8,1) obtain dsi src starts srci j where
    "find_instruction c v = Some dsi" "opcode dsi = kDynamicSlice"
    "operands dsi = src # starts" "src = (case Some u of None \<Rightarrow> h | Some r \<Rightarrow> r)"
    "dynamic_slice sp = v"
    "nat (split_dim sp) < length (dimensions (shape ar))" "0 \<le> split_dim sp"
    "0 < group_size sp"
    by (rule MatchSlice_SomeD)
  moreover from reshape(5) obtain ri where "find_instruction c u = Some ri"
    "opcode ri = kReshape"
    by (rule has_opcode_SomeD)
  moreover from this reshape(1,2) have "u \<noteq> h" by auto
  ultimately show ?thesis
    using reshape by (simp add: AcceptedMatch_def)
qed

lemma wf_computation_erase: "wf_computation c \<Longrightarrow> wf_computation (erase c h)"
  by (auto simp: wf_computation_def erase_def distinct_map_filter)

lemma wf_computation_replace_uses:
  "wf_computation c \<Longrightarrow> wf_computation (replace_uses c old new)"
proof -
  have a: "map fst (instructions (replace_uses c old new)) = map fst (instructions c)"
    by (auto simp: replace_uses_def)
  assume "wf_computation c"
  then show "wf_computation (replace_uses c old new)"
    unfolding wf_computation_def a
    by (auto simp: replace_uses_def replace_operand_def)
qed

lemma wf_computation_add:
  assumes "wf_computation c" "channel_id i \<noteq> None \<longrightarrow> IsChannelInstruction (opcode i)"
  shows "wf_computation (add_instruction c i)"
  using assms by (force simp: wf_computation_def add_instruction_def)

lemma IsFusionComputation_simps [simp]:
  "IsFusionComputation (erase c h) = IsFusionComputation c"
  "IsFusionComputation (replace_uses c old new) = IsFusionComputation c"
  "IsFusionComputation (add_instruction c i) = IsFusionComputation c"
  by (simp_all add: erase_def replace_uses_def add_instruction_def)

lemma Match_slice_dims:
  assumes "MatchAllReduceScatter c h partitions replicas multi True = Some sp"
    and "find_instruction c (dynamic_slice sp) = Some dsi"
  shows "dimensions (shape dsi) \<noteq> []"
  using assms(1)
proof (cases rule: MatchAllReduceScatter_cases)
  case (direct ar u)
  from direct(6,1) obtain dsi' and srci :: HloInstruction and j where "find_instruction c u = Some dsi'"
    "dynamic_slice sp = u" "j < length (dimensions (shape srci))"
    "length (dimensions (shape dsi')) = length (dimensions (shape srci))"
    by (rule MatchSlice_SomeD) blast
  with assms(2) show ?thesis by auto
next
  case (reshape ar u v)
  from reshape(8,1) obtain dsi' and srci :: HloInstruction and j where "find_instruction c v = Some dsi'"
    "dynamic_slice sp = v" "j < length (dimensions (shape srci))"
    "length (dimensions (shape dsi')) = length (dimensions (shape srci))"
    by (rule MatchSlice_SomeD) blast
  with assms(2) show ?thesis by auto
qed

lemma Rewrite_Rewritten:
  assumes wf: "wf_computation (comp st)"
    and ar: "find_instruction (comp st) b = Some ar"
    and match: "MatchAllReduceScatter (comp st) b partitions replicas multi True = Some sp"
    and run: "Rewrite b ar sp st = (None, st')"
  shows "\<exists>rsh. Rewritten (comp st) (comp st') b (dynamic_slice sp) rsh"
proof -
  let ?c = "comp st" and ?ds = "dynamic_slice sp" and ?n = "next_handle (comp st)"
  have acc: "AcceptedMatch ?c b sp"
    using match by (rule MatchAllReduceScatter_accepted)
  have opc: "opcode ar = kAllReduce"
    using acc ar by (rule AcceptedMatch_opcode)
  have blt: "b < ?n"
    using wf ar by (rule find_instruction_lt)
  have fresh: "find_instruction ?c ?n = None"
    using wf by (rule find_instruction_fresh)
  have above: "find_instruction ?c (Suc ?n) = None"
    using wf by (simp add: find_instruction_above)
  from wf ar acc show ?thesis
  proof (cases rule: Rewrite_cases)
    case (check d)
    with run show ?thesis by simp
  next
    case (direct d dsi rest)
    let ?ars = "CreateAllReduceScatter
                  (set_dimensions (shape ar) (split_dim sp) (d sdiv group_size sp))
                  (operands ar) (to_apply ar) (replica_groups ar) (constrain_layout ar)
                  (if channel_id ar \<noteq> None then Some (next_channel_id st) else None)
                  (use_global_device_ids ar) (split_dim sp)"
    have dlt: "?ds < ?n"
      using wf direct(4) by (rule find_instruction_lt)
    note facts = AcceptedMatch_direct_facts [OF acc ar direct(4,5)]
    have dsi: "opcode dsi = kDynamicSlice" "dimensions (shape dsi) \<noteq> []"
      using acc direct(4) Match_slice_dims [OF match direct(4)]
      by (auto simp: AcceptedMatch_def split: option.splits)
    from direct(6) run have c': "comp st' =
        erase (erase (replace_uses (add_instruction ?c ?ars) ?ds ?n) ?ds) b"
      by auto
    have wf': "wf_computation (comp st')"
      unfolding c'
      by (intro wf_computation_erase wf_computation_replace_uses wf_computation_add wf)
        (simp add: CreateAllReduceScatter_def IsChannelInstruction_def)
    have "Rewritten ?c (comp st') b ?ds None"
      unfolding Rewritten_def result_handle_def option.case
    proof (intro conjI allI impI exI)
      show "wf_computation ?c" by (rule wf)
      show "wf_computation (comp st')" by (rule wf')
      show "root_instruction (comp st') =
              (if root_instruction ?c = ?ds then ?n else root_instruction ?c)"
        by (simp add: c' root_replace_uses)
      show "next_handle (comp st') = Suc ?n"
        by (simp add: c')
      show "IsFusionComputation (comp st') = IsFusionComputation ?c"
        by (simp add: c')
      show "find_instruction (comp st') y =
              (if y = b \<or> y = ?ds \<or> None = Some y then None
               else Some (replace_operand ?ds ?n i))"
        if "find_instruction ?c y = Some i" for y i
        using that fresh by (auto simp: c' find_rewritten_direct [OF wf blt dlt])
      show "find_instruction (comp st') y = None"
        if "find_instruction ?c y = None" "y \<noteq> ?n" for y
        using that blt dlt by (simp add: c' find_rewritten_direct [OF wf blt dlt])
      show "find_instruction (comp st') ?n = Some (replace_operand ?ds ?n ?ars)"
        using blt dlt by (simp add: c' find_rewritten_direct [OF wf blt dlt])
      show "opcode (replace_operand ?ds ?n ?ars) = kAllReduceScatter"
        by (simp add: CreateAllReduceScatter_def)
      show "find_instruction ?c b = Some ar" by (rule ar)
      show "opcode ar = kAllReduce" by (rule opc)
      show "operands (replace_operand ?ds ?n ?ars) = operands (replace_operand ?ds ?n ar)"
        by (simp add: replace_operand_def CreateAllReduceScatter_def)
      show "find_instruction ?c ?ds = Some dsi" by (rule direct(4))
      show "opcode dsi = kDynamicSlice" "dimensions (shape dsi) \<noteq> []" by (rule dsi)+
      show "operands dsi = b # rest" by (rule direct(5))
      show "b = b" ..
      show "users ?c b = [?ds]" by (rule facts(1))
    qed
    then show ?thesis ..
  next
    case (reshape d dsi r rest)
    let ?ars = "CreateAllReduceScatter
                  (set_dimensions (shape ar) (split_dim sp) (d sdiv group_size sp))
                  (operands ar) (to_apply ar) (replica_groups ar) (constrain_layout ar)
                  (if channel_id ar \<noteq> None then Some (next_channel_id st) else None)
                  (use_global_device_ids ar) (split_dim sp)"
    let ?rs = "CreateReshape (shape dsi) ?n"
    have dlt: "?ds < ?n"
      using wf reshape(4) by (rule find_instruction_lt)
    note facts = AcceptedMatch_reshape_facts [OF acc ar reshape(4,5,6)]
    from acc reshape(4,5,6) obtain ri where ri: "find_instruction ?c r = Some ri"
      "opcode ri = kReshape"
      by (rule AcceptedMatch_reshape)
    have rlt: "r < ?n"
      using wf ri(1) by (rule find_instruction_lt)
    have dsi: "opcode dsi = kDynamicSlice" "dimensions (shape dsi) \<noteq> []"
      using acc reshape(4) Match_slice_dims [OF match reshape(4)]
      by (auto simp: AcceptedMatch_def split: option.splits)
    from reshape(7) run have c': "comp st' =
        erase (erase (erase (replace_uses (add_instruction (add_instruction ?c ?ars) ?rs)
                               ?ds (Suc ?n)) ?ds) r) b"
      by auto
    have wf': "wf_computation (comp st')"
      unfolding c'
      by (intro wf_computation_erase wf_computation_replace_uses wf_computation_add wf)
        (simp_all add: CreateAllReduceScatter_def CreateReshape_def IsChannelInstruction_def)
    have "Rewritten ?c (comp st') b ?ds (Some r)"
      unfolding Rewritten_def result_handle_def option.case
    proof (intro conjI allI impI exI)
      show "wf_computation ?c" by (rule wf)
      show "wf_computation (comp st')" by (rule wf')
      show "root_instruction (comp st') =
              (if root_instruction ?c = ?ds then Suc ?n else root_instruction ?c)"
        by (simp add: c' root_replace_uses)
      show "next_handle (comp st') = Suc (Suc ?n)"
        by (simp add: c')
      show "IsFusionComputation (comp st') = IsFusionComputation ?c"
        by (simp add: c')
      show "find_instruction (comp st') y =
              (if y = b \<or> y = ?ds \<or> Some r = Some y then None
               else Some (replace_operand ?ds (Suc ?n) i))"
        if "find_instruction ?c y = Some i" for y i
        using that fresh above
        by (auto simp: c' find_rewritten_reshape [OF wf blt dlt rlt])
      show "find_instruction (comp st') y = None"
        if "find_instruction ?c y = None" "y \<noteq> ?n" "y \<noteq> Suc ?n" for y
        using that blt dlt rlt by (simp add: c' find_rewritten_reshape [OF wf blt dlt rlt])
      show "find_instruction (comp st') ?n = Some (replace_operand ?ds (Suc ?n) ?ars)"
        using blt dlt rlt by (simp add: c' find_rewritten_reshape [OF wf blt dlt rlt])
      show "opcode (replace_operand ?ds (Suc ?n) ?ars) = kAllReduceScatter"
        by (simp add: CreateAllReduceScatter_def)
      show "find_instruction ?c b = Some ar" by (rule ar)
      show "opcode ar = kAllReduce" by (rule opc)
      show "operands (replace_operand ?ds (Suc ?n) ?ars)
              = operands (replace_operand ?ds (Suc ?n) ar)"
        by (simp add: replace_operand_def CreateAllReduceScatter_def)
      show "find_instruction ?c ?ds = Some dsi" by (rule reshape(4))
      show "opcode dsi = kDynamicSlice" "dimensions (shape dsi) \<noteq> []" by (rule dsi)+
      show "operands dsi = r # rest" by (rule reshape(5))
      show "r = r" ..
      show "r \<noteq> b" by (rule reshape(6))
      show "users ?c b = [r]" "users ?c r = [?ds]" by (rule facts)+
      show "find_instruction ?c r = Some ri" "opcode ri = kReshape" by (rule ri)+
      show "find_instruction (comp st') (Suc ?n) = Some (replace_operand ?ds (Suc ?n) ?rs)"
        using blt dlt rlt by (simp add: c' find_rewritten_reshape [OF wf blt dlt rlt])
      show "opcode (replace_operand ?ds (Suc ?n) ?rs) = kReshape"
        by (simp add: CreateReshape_def)
      show "operands (replace_operand ?ds (Suc ?n) ?rs) = [?n]"
        using dlt by (simp add: CreateReshape_def replace_operand_def)
    qed
    then show ?thesis ..
  qed
qed

lemma inert_slice_parts: "has_opcode c z kAllReduceScatter \<Longrightarrow> slice_parts c z = None"
  by (auto simp: has_opcode_def slice_parts_def split: option.splits)

lemma inert_simps:
  assumes "inert c y"
  shows "scalar_constant c y = None" "plain_id c rid pid y = None" "table_values c y = None"
    "slice_parts c y = None" "lookup_parts c y = None"
    "deviceIndexValue c mode partitions d y = None"
    "\<not> has_opcode c y kReplicaId" "\<not> has_opcode c y kPartitionId"
    "\<not> has_opcode c y kMultiply" "\<not> has_opcode c y kAllReduce"
    "\<not> has_opcode c y kDynamicSlice"
proof -
  show "scalar_constant c y = None" "plain_id c rid pid y = None" "table_values c y = None"
    "\<not> has_opcode c y kReplicaId" "\<not> has_opcode c y kPartitionId"
    "\<not> has_opcode c y kMultiply" "\<not> has_opcode c y kAllReduce"
    "\<not> has_opcode c y kDynamicSlice"
    using assms
    by (auto simp: inert_def scalar_constant_def plain_id_def table_values_def slice_parts_def
        has_opcode_def split: option.splits list.splits)
  show sl: "slice_parts c y = None"
    using assms
    by (auto simp: inert_def slice_parts_def split: option.splits list.splits)
  show "lookup_parts c y = None"
    using assms sl
    by (auto simp: inert_def lookup_parts_def inert_slice_parts
        split: option.splits list.splits)
  show "deviceIndexValue c mode partitions d y = None"
    using assms
    by (auto simp: inert_def deviceIndexValue_def plain_id_def Let_def
        split: option.splits list.splits)
qed

lemma inert_rawValue: "inert c y \<Longrightarrow> rawValue c mode partitions replicas G d y = None"
  by (simp add: rawValue_def inert_simps)

lemma inert_offsetValue: "inert c y \<Longrightarrow> offsetValue c mode partitions replicas G d y = None"
  by (auto simp: offsetValue_def inert_rawValue inert_def split: option.splits)

lemma Rewritten_inert_new:
  assumes R: "Rewritten c c' b ds rsh" and "find_instruction c y = None"
  shows "inert c' y"
proof (cases "find_instruction c' y")
  case None
  then show ?thesis by (simp add: inert_def)
next
  case (Some i')
  with R assms(2) have y: "y = next_handle c \<or> y = result_handle c rsh"
    unfolding Rewritten_def by (metis option.distinct(1))
  from R obtain ars where ars: "find_instruction c' (next_handle c) = Some ars"
    "opcode ars = kAllReduceScatter"
    unfolding Rewritten_def by blast
  show ?thesis
  proof (cases "y = next_handle c")
    case True
    with ars show ?thesis by (simp add: inert_def)
  next
    case False
    with y obtain r where r: "rsh = Some r" "y = Suc (next_handle c)"
      by (cases rsh) (auto simp: result_handle_def)
    with R obtain rs where "find_instruction c' (Suc (next_handle c)) = Some rs"
      "opcode rs = kReshape" "operands rs = [next_handle c]"
      unfolding Rewritten_def by auto
    with r ars show ?thesis by (simp add: inert_def has_opcode_def)
  qed
qed

lemma Rewritten_result_fresh:
  assumes R: "Rewritten c c' b ds rsh"
  shows "find_instruction c (result_handle c rsh) = None"
proof -
  from R have "wf_computation c" unfolding Rewritten_def by simp
  then show ?thesis
    by (cases rsh) (simp_all add: result_handle_def find_instruction_above)
qed

lemma Rewritten_inert_result:
  "Rewritten c c' b ds rsh \<Longrightarrow> inert c' (result_handle c rsh)"
  by (rule Rewritten_inert_new, assumption, erule Rewritten_result_fresh)

lemma Rewritten_old:
  assumes R: "Rewritten c c' b ds rsh" and f: "find_instruction c' y = Some i'"
    and n: "\<not> inert c' y"
  obtains i0 where "find_instruction c y = Some i0"
    "i' = replace_operand ds (result_handle c rsh) i0" "y \<noteq> b" "y \<noteq> ds" "rsh \<noteq> Some y"
proof (cases "find_instruction c y")
  case None
  with R have "inert c' y" by (rule Rewritten_inert_new)
  with n show ?thesis ..
next
  case (Some i0)
  with R have "find_instruction c' y =
      (if y = b \<or> y = ds \<or> rsh = Some y then None
       else Some (replace_operand ds (result_handle c rsh) i0))"
    unfolding Rewritten_def by blast
  with f Some that show ?thesis by (auto split: if_splits)
qed

lemma Rewritten_kept:
  assumes R: "Rewritten c c' b ds rsh" and f: "find_instruction c y = Some i0"
    and "y \<noteq> b" "y \<noteq> ds" "rsh \<noteq> Some y"
  shows "find_instruction c' y = Some (replace_operand ds (result_handle c rsh) i0)"
  using assms unfolding Rewritten_def by auto

lemma Rewritten_back:
  assumes R: "Rewritten c c' b ds rsh"
    and n: "\<not> inert c' (if y0 = ds then result_handle c rsh else y0)"
  shows "y0 \<noteq> ds"
  using Rewritten_inert_result [OF R] n by auto

lemma replace_operand_shape [simp]:
  "shape (replace_operand old new i) = shape i"
  "literal (replace_operand old new i) = literal i"
  "replica_groups (replace_operand old new i) = replica_groups i"
  "use_global_device_ids (replace_operand old new i) = use_global_device_ids i"
  "operands (replace_operand old new i) = map (\<lambda>x. if x = old then new else x) (operands i)"
  by (simp_all add: replace_operand_def)

lemma well_typed_index:
  assumes "well_typed c" "find_instruction c x = Some i" "opcode i = kDynamicSlice"
    "y \<in> set (tl (operands i))" "find_instruction c y = Some yi"
  shows "dimensions (shape yi) = []"
proof -
  from assms(2) have "(x, i) \<in> set (instructions c)" by (rule find_instruction_mem)
  with assms(1,3,4) have "case find_instruction c y of None \<Rightarrow> True
      | Some yi \<Rightarrow> dimensions (shape yi) = []"
    unfolding well_typed_def by blast
  with assms(5) show ?thesis by simp
qed

lemma Rewritten_index:
  assumes R: "Rewritten c c' b ds rsh" and T: "well_typed c"
    and x: "find_instruction c x = Some i" "opcode i = kDynamicSlice"
  shows "ds \<notin> set (tl (operands i))"
proof
  assume mem: "ds \<in> set (tl (operands i))"
  from R obtain dsi where dsi: "find_instruction c ds = Some dsi"
    "dimensions (shape dsi) \<noteq> []"
    unfolding Rewritten_def by blast
  from T x mem dsi(1) have "dimensions (shape dsi) = []" by (rule well_typed_index)
  with dsi(2) show False ..
qed

lemma stable_scalar_constant:
  assumes R: "Rewritten c c' b ds rsh" and v: "scalar_constant c' y = Some v"
  shows "scalar_constant c y = Some v"
proof -
  from v obtain i' where f: "find_instruction c' y = Some i'"
    by (auto simp: scalar_constant_def split: option.splits)
  from v have "\<not> inert c' y" by (auto simp: inert_simps)
  with R f obtain i0 where "find_instruction c y = Some i0"
    "i' = replace_operand ds (result_handle c rsh) i0"
    by (rule Rewritten_old)
  with v f show ?thesis by (auto simp: scalar_constant_def split: if_splits)
qed

lemma stable_has_opcode:
  assumes R: "Rewritten c c' b ds rsh" and v: "has_opcode c' y opc"
    and opc: "opc \<noteq> kAllReduceScatter" "opc \<noteq> kReshape"
  shows "has_opcode c y opc"
proof -
  from v obtain i' where f: "find_instruction c' y = Some i'" "opcode i' = opc"
    by (auto simp: has_opcode_def split: option.splits)
  with opc have "\<not> inert c' y" by (auto simp: inert_def)
  with R f(1) obtain i0 where "find_instruction c y = Some i0"
    "i' = replace_operand ds (result_handle c rsh) i0"
    by (rule Rewritten_old)
  with f show ?thesis by (simp add: has_opcode_def)
qed

lemma stable_plain_id:
  assumes R: "Rewritten c c' b ds rsh" and v: "plain_id c' rid pid y = Some v"
  shows "plain_id c rid pid y = Some v"
proof -
  from v obtain i' where f: "find_instruction c' y = Some i'"
    by (auto simp: plain_id_def split: option.splits)
  from v have "\<not> inert c' y" by (auto simp: inert_simps)
  with R f obtain i0 where "find_instruction c y = Some i0"
    "i' = replace_operand ds (result_handle c rsh) i0"
    by (rule Rewritten_old)
  with v f show ?thesis by (auto simp: plain_id_def split: if_splits)
qed

lemma stable_table_values:
  assumes R: "Rewritten c c' b ds rsh" and v: "table_values c' y = Some v"
  shows "table_values c y = Some v"
proof -
  from v obtain i' where f: "find_instruction c' y = Some i'"
    by (auto simp: table_values_def split: option.splits)
  from v have "\<not> inert c' y" by (auto simp: inert_simps)
  with R f obtain i0 where "find_instruction c y = Some i0"
    "i' = replace_operand ds (result_handle c rsh) i0"
    by (rule Rewritten_old)
  with v f show ?thesis by (auto simp: table_values_def split: list.splits if_splits)
qed

lemma stable_slice_parts:
  assumes R: "Rewritten c c' b ds rsh" and T: "well_typed c"
    and v: "slice_parts c' x = Some (tab, y)"
  shows "slice_parts c x = Some (tab, y)"
proof -
  let ?res = "result_handle c rsh"
  from v obtain i' t where f: "find_instruction c' x = Some i'" "opcode i' = kDynamicSlice"
    "operands i' = [t, y]" "table_values c' t = Some tab"
    by (auto simp: slice_parts_def split: option.splits if_splits list.splits)
  from v have "\<not> inert c' x" by (auto simp: inert_simps)
  with R f(1) obtain i0 where i0: "find_instruction c x = Some i0"
    "i' = replace_operand ds ?res i0"
    by (rule Rewritten_old)
  from f(3) i0(2) obtain t0 y0 where ops: "operands i0 = [t0, y0]"
    "t = (if t0 = ds then ?res else t0)" "y = (if y0 = ds then ?res else y0)"
    by auto
  from f(4) have "\<not> inert c' t" by (auto simp: inert_simps)
  with R ops(2) have t0: "t0 = t" by (auto dest: Rewritten_back)
  from i0 f(2) have "opcode i0 = kDynamicSlice" by simp
  with R T i0(1) have "ds \<notin> set (tl (operands i0))" by (rule Rewritten_index)
  with ops have y0: "y0 = y" by simp
  from R f(4) have "table_values c t = Some tab" by (rule stable_table_values)
  with i0 f(2) ops(1) t0 y0 show ?thesis by (simp add: slice_parts_def)
qed

lemma stable_lookup_parts:
  assumes R: "Rewritten c c' b ds rsh" and T: "well_typed c"
    and v: "lookup_parts c' x = Some (tab, y)"
  shows "lookup_parts c x = Some (tab, y)"
proof -
  let ?res = "result_handle c rsh"
  from v obtain i' where f: "find_instruction c' x = Some i'"
    by (auto simp: lookup_parts_def split: option.splits)
  from v have "\<not> inert c' x" by (auto simp: inert_simps)
  with R f(1) obtain i0 where i0: "find_instruction c x = Some i0"
    "i' = replace_operand ds ?res i0"
    by (rule Rewritten_old)
  show ?thesis
  proof (cases "opcode i' = kReshape")
    case True
    with v f obtain z where z: "operands i' = [z]" "slice_parts c' z = Some (tab, y)"
      by (auto simp: lookup_parts_def split: list.splits)
    from z(1) i0(2) obtain z0 where ops: "operands i0 = [z0]"
      "z = (if z0 = ds then ?res else z0)"
      by auto
    from z(2) have "\<not> inert c' z" by (auto simp: inert_simps)
    with R ops(2) have "z0 = z" by (auto dest: Rewritten_back)
    moreover from R T z(2) have "slice_parts c z = Some (tab, y)" by (rule stable_slice_parts)
    ultimately show ?thesis using i0 True ops(1) by (simp add: lookup_parts_def)
  next
    case False
    with v f have "slice_parts c' x = Some (tab, y)" by (simp add: lookup_parts_def)
    with R T have "slice_parts c x = Some (tab, y)" by (rule stable_slice_parts)
    with i0 False show ?thesis by (simp add: lookup_parts_def)
  qed
qed

lemma deviceIndexValue_lookup_parts:
  assumes "deviceIndexValue c mode partitions d x = Some v"
  shows "lookup_parts c x = None"
proof -
  from assms obtain i where i: "find_instruction c x = Some i"
    by (auto simp: deviceIndexValue_def Let_def split: option.splits)
  with assms have "opcode i \<in> {kConvert, kAdd, kReplicaId, kPartitionId}"
    by (auto simp: deviceIndexValue_def Let_def plain_id_def split: if_splits)
  with i show ?thesis by (auto simp: lookup_parts_def slice_parts_def)
qed

lemma stable_deviceIndexValue:
  assumes R: "Rewritten c c' b ds rsh"
    and v: "deviceIndexValue c' mode partitions d x = Some v"
  shows "deviceIndexValue c mode partitions d x = Some v"
proof -
  let ?res = "result_handle c rsh"
  let ?rid = "replicaId mode partitions d" and ?pid = "partitionId mode partitions d"
  from v obtain i' where f: "find_instruction c' x = Some i'"
    by (auto simp: deviceIndexValue_def Let_def split: option.splits)
  from v have "\<not> inert c' x" by (auto simp: inert_simps)
  with R f(1) obtain i0 where i0: "find_instruction c x = Some i0"
    "i' = replace_operand ds ?res i0"
    by (rule Rewritten_old)
  consider (convert) "opcode i' = kConvert"
    | (add) "opcode i' \<noteq> kConvert" "opcode i' = kAdd" "mode = GlobalDevices"
    | (plain) "opcode i' \<noteq> kConvert" "\<not> (opcode i' = kAdd \<and> mode = GlobalDevices)"
    by blast
  then show ?thesis
  proof cases
    case convert
    with v f obtain z where z: "operands i' = [z]" "plain_id c' ?rid ?pid z = Some v"
      by (auto simp: deviceIndexValue_def Let_def split: list.splits)
    from z(1) i0(2) obtain z0 where ops: "operands i0 = [z0]"
      "z = (if z0 = ds then ?res else z0)"
      by auto
    from z(2) have "\<not> inert c' z" by (auto simp: inert_simps)
    with R ops(2) have "z0 = z" by (auto dest: Rewritten_back)
    moreover from R z(2) have "plain_id c ?rid ?pid z = Some v" by (rule stable_plain_id)
    ultimately show ?thesis
      using i0 convert ops(1) by (simp add: deviceIndexValue_def Let_def)
  next
    case add
    with v f obtain p q ai' r s where pq: "operands i' = [p, q]"
      "find_instruction c' p = Some ai'" "operands ai' = [r, s]" "opcode ai' = kMultiply"
      "has_opcode c' r kReplicaId" "scalar_constant c' s = Some partitions"
      "has_opcode c' q kPartitionId" "v = d"
      by (auto simp: deviceIndexValue_def Let_def split: list.splits option.splits if_splits)
    from pq(1) i0(2) obtain p0 q0 where ops: "operands i0 = [p0, q0]"
      "p = (if p0 = ds then ?res else p0)" "q = (if q0 = ds then ?res else q0)"
      by auto
    from pq(2,4) have np: "\<not> inert c' p" by (simp add: inert_def)
    with R ops(2) have p0: "p0 = p" by (auto dest: Rewritten_back)
    from pq(7) have "\<not> inert c' q" by (auto simp: inert_simps)
    with R ops(3) have q0: "q0 = q" by (auto dest: Rewritten_back)
    from R pq(2) np obtain ai0 where ai0: "find_instruction c p = Some ai0"
      "ai' = replace_operand ds ?res ai0"
      by (rule Rewritten_old)
    from pq(3) ai0(2) obtain r0 s0 where aops: "operands ai0 = [r0, s0]"
      "r = (if r0 = ds then ?res else r0)" "s = (if s0 = ds then ?res else s0)"
      by auto
    from pq(5) have "\<not> inert c' r" by (auto simp: inert_simps)
    with R aops(2) have r0: "r0 = r" by (auto dest: Rewritten_back)
    from pq(6) have "\<not> inert c' s" by (auto simp: inert_simps)
    with R aops(3) have s0: "s0 = s" by (auto dest: Rewritten_back)
    from R pq(5) have "has_opcode c r kReplicaId" by (rule stable_has_opcode) simp_all
    moreover from R pq(7) have "has_opcode c q kPartitionId"
      by (rule stable_has_opcode) simp_all
    moreover from R pq(6) have "scalar_constant c s = Some partitions"
      by (rule stable_scalar_constant)
    ultimately show ?thesis
      using i0 add ops(1) p0 q0 ai0 aops(1) r0 s0 pq(4,8)
      by (simp add: deviceIndexValue_def Let_def)
  next
    case plain
    with v f have "plain_id c' ?rid ?pid x = Some v"
      by (auto simp: deviceIndexValue_def Let_def split: if_splits)
    with R have "plain_id c ?rid ?pid x = Some v" by (rule stable_plain_id)
    with i0 plain show ?thesis by (auto simp: deviceIndexValue_def Let_def)
  qed
qed

lemma stable_plain_count:
  assumes R: "Rewritten c c' b ds rsh"
    and v: "plain_count c' mode partitions replicas y = Some v"
  shows "plain_count c mode partitions replicas y = Some v"
proof -
  from v obtain i' where f: "find_instruction c' y = Some i'"
    "opcode i' = kReplicaId \<or> opcode i' = kPartitionId"
    by (auto simp: plain_count_def split: option.splits if_splits)
  then have "\<not> inert c' y" by (auto simp: inert_def)
  with R f(1) obtain i0 where "find_instruction c y = Some i0"
    "i' = replace_operand ds (result_handle c rsh) i0"
    by (rule Rewritten_old)
  with v f show ?thesis by (auto simp: plain_count_def split: if_splits)
qed

lemma stable_deviceIndexCount:
  assumes R: "Rewritten c c' b ds rsh"
    and v: "deviceIndexValue c' mode partitions d x = Some w"
    and n: "deviceIndexCount c' mode partitions replicas x = Some n"
  shows "deviceIndexCount c mode partitions replicas x = Some n"
proof -
  let ?res = "result_handle c rsh"
  from v obtain i' where f: "find_instruction c' x = Some i'"
    by (auto simp: deviceIndexValue_def Let_def split: option.splits)
  from v have "\<not> inert c' x" by (auto simp: inert_simps)
  with R f(1) obtain i0 where i0: "find_instruction c x = Some i0"
    "i' = replace_operand ds ?res i0"
    by (rule Rewritten_old)
  consider (convert) "opcode i' = kConvert"
    | (add) "opcode i' \<noteq> kConvert" "opcode i' = kAdd" "mode = GlobalDevices"
    | (plain) "opcode i' \<noteq> kConvert" "\<not> (opcode i' = kAdd \<and> mode = GlobalDevices)"
    by blast
  then show ?thesis
  proof cases
    case convert
    with n f obtain z where z: "operands i' = [z]"
      "plain_count c' mode partitions replicas z = Some n"
      by (auto simp: deviceIndexCount_def split: list.splits)
    from z(1) i0(2) obtain z0 where ops: "operands i0 = [z0]"
      "z = (if z0 = ds then ?res else z0)"
      by auto
    from z(2) have "find_instruction c' z \<noteq> None \<and> \<not> inert c' z"
      by (auto simp: plain_count_def inert_def split: option.splits if_splits)
    with R ops(2) have "z0 = z" by (auto dest: Rewritten_back)
    moreover from R z(2) have "plain_count c mode partitions replicas z = Some n"
      by (rule stable_plain_count)
    ultimately show ?thesis
      using i0 convert ops(1) by (simp add: deviceIndexCount_def)
  next
    case add
    with n f i0 show ?thesis by (simp add: deviceIndexCount_def)
  next
    case plain
    with n f have "plain_count c' mode partitions replicas x = Some n"
      by (auto simp: deviceIndexCount_def split: if_splits)
    with R have "plain_count c mode partitions replicas x = Some n"
      by (rule stable_plain_count)
    with i0 plain show ?thesis by (auto simp: deviceIndexCount_def)
  qed
qed

lemma stable_rawValue:
  assumes R: "Rewritten c c' b ds rsh" and T: "well_typed c"
    and v: "rawValue c' mode partitions replicas G d x = Some v"
  shows "rawValue c mode partitions replicas G d x = Some v"
proof (cases "lookup_parts c' x")
  case None
  with v have "deviceIndexValue c' mode partitions d x = Some v" by (simp add: rawValue_def)
  with R have dv: "deviceIndexValue c mode partitions d x = Some v"
    by (rule stable_deviceIndexValue)
  then have "lookup_parts c x = None" by (rule deviceIndexValue_lookup_parts)
  with dv show ?thesis by (simp add: rawValue_def)
next
  case (Some ty)
  obtain tab y where ty: "ty = (tab, y)" by (cases ty)
  with Some R T have l1: "lookup_parts c x = Some (tab, y)" by (simp add: stable_lookup_parts)
  show ?thesis
  proof (cases "lookup_parts c' y")
    case None
    with v Some ty obtain k where k: "deviceIndexValue c' mode partitions d y = Some k"
      "lookup tab k = Some v"
      and n: "deviceIndexCount c' mode partitions replicas y = Some (int (length tab))"
      by (auto simp: rawValue_def split: Option.bind_splits if_splits)
    from R k(1) have dv: "deviceIndexValue c mode partitions d y = Some k"
      by (rule stable_deviceIndexValue)
    then have "lookup_parts c y = None" by (rule deviceIndexValue_lookup_parts)
    moreover from R k(1) n
    have "deviceIndexCount c mode partitions replicas y = Some (int (length tab))"
      by (rule stable_deviceIndexCount)
    ultimately show ?thesis using dv l1 k(2) by (simp add: rawValue_def)
  next
    case (Some ty')
    obtain tab' y' where ty': "ty' = (tab', y')" by (cases ty')
    with Some R T have l2: "lookup_parts c y = Some (tab', y')"
      by (simp add: stable_lookup_parts)
    from v \<open>lookup_parts c' x = Some ty\<close> ty Some ty'
    obtain k where k: "deviceIndexValue c' mode partitions d y' = Some k"
      "Option.bind (lookup tab' k) (lookup tab) = Some v"
      and n: "deviceIndexCount c' mode partitions replicas y' = Some (int (length tab'))"
        "length tab = G"
      by (auto simp: rawValue_def split: Option.bind_splits if_splits)
    from R k(1) have dv: "deviceIndexValue c mode partitions d y' = Some k"
      by (rule stable_deviceIndexValue)
    moreover from R k(1) n(1)
    have "deviceIndexCount c mode partitions replicas y' = Some (int (length tab'))"
      by (rule stable_deviceIndexCount)
    ultimately show ?thesis using l1 l2 k(2) n(2) by (simp add: rawValue_def)
  qed
qed

lemma rawValue_found:
  "rawValue c mode partitions replicas G d x = Some v \<Longrightarrow> find_instruction c x \<noteq> None"
  by (auto simp: rawValue_def lookup_parts_def slice_parts_def deviceIndexValue_def Let_def
      split: option.splits)

lemma stable_offsetValue:
  assumes R: "Rewritten c c' b ds rsh" and T: "well_typed c"
    and v: "offsetValue c' mode partitions replicas G d x = Some v"
  shows "offsetValue c mode partitions replicas G d x = Some v"
proof -
  let ?res = "result_handle c rsh"
  from v obtain i' where f: "find_instruction c' x = Some i'"
    by (auto simp: offsetValue_def split: option.splits)
  from v have "\<not> inert c' x" by (auto simp: inert_offsetValue)
  with R f(1) obtain i0 where i0: "find_instruction c x = Some i0"
    "i' = replace_operand ds ?res i0"
    by (rule Rewritten_old)
  show ?thesis
  proof (cases "opcode i' = kMultiply")
    case True
    with v f obtain p q s r where pq: "operands i' = [p, q]"
      "scalar_constant c' q = Some s" "rawValue c' mode partitions replicas G d p = Some r" "v = r * s"
      by (auto simp: offsetValue_def split: list.splits option.splits)
    from pq(1) i0(2) obtain p0 q0 where ops: "operands i0 = [p0, q0]"
      "p = (if p0 = ds then ?res else p0)" "q = (if q0 = ds then ?res else q0)"
      by auto
    from pq(3) have "\<not> inert c' p" by (auto simp: inert_rawValue)
    with R ops(2) have p0: "p0 = p" by (auto dest: Rewritten_back)
    from pq(2) have "\<not> inert c' q" by (auto simp: inert_simps)
    with R ops(3) have q0: "q0 = q" by (auto dest: Rewritten_back)
    from R pq(2) have "scalar_constant c q = Some s" by (rule stable_scalar_constant)
    moreover from R T pq(3) have "rawValue c mode partitions replicas G d p = Some r"
      by (rule stable_rawValue)
    ultimately show ?thesis
      using i0 True ops(1) p0 q0 pq(4) by (simp add: offsetValue_def)
  next
    case False
    with v f have "rawValue c' mode partitions replicas G d x = Some v" by (simp add: offsetValue_def)
    with R T have "rawValue c mode partitions replicas G d x = Some v" by (rule stable_rawValue)
    with i0 False show ?thesis by (simp add: offsetValue_def)
  qed
qed

lemma stable_IsPerIdOffset:
  assumes R: "Rewritten c c' b ds rsh" and T: "well_typed c"
    and v: "IsPerIdOffset c' mode partitions replicas groups G shard x"
  shows "IsPerIdOffset c mode partitions replicas groups G shard x"
  unfolding IsPerIdOffset_def
proof (intro ballI)
  fix g d
  assume "g \<in> set groups" "d \<in> set g"
  with v have *: "case rankOf groups d of None \<Rightarrow> False
      | Some (j, rank) \<Rightarrow> offsetValue c' mode partitions replicas G d x = Some (int rank * shard)"
    unfolding IsPerIdOffset_def by blast
  then obtain j rank where jr: "rankOf groups d = Some (j, rank)"
    by (auto split: option.splits)
  with * have "offsetValue c' mode partitions replicas G d x = Some (int rank * shard)" by simp
  with R T have "offsetValue c mode partitions replicas G d x = Some (int rank * shard)"
    by (rule stable_offsetValue)
  with jr show "case rankOf groups d of None \<Rightarrow> False
      | Some (j, rank) \<Rightarrow> offsetValue c mode partitions replicas G d x = Some (int rank * shard)"
    by simp
qed

lemma find_instruction_iff:
  "wf_computation c \<Longrightarrow> find_instruction c h = Some i \<longleftrightarrow> (h, i) \<in> set (instructions c)"
  by (simp add: wf_computation_def find_instruction_def)

lemma users_iff:
  assumes "wf_computation c"
  shows "u \<in> set (users c a) \<longleftrightarrow>
         (\<exists>i. find_instruction c u = Some i \<and> a \<in> set (operands i))"
  unfolding find_instruction_iff [OF assms] by (force simp: users_def)

lemma distinct_users: "wf_computation c \<Longrightarrow> distinct (users c a)"
  by (simp add: wf_computation_def users_def distinct_map_filter)

lemma distinct_singleton:
  assumes "distinct xs" "\<And>x. x \<in> set xs \<longleftrightarrow> x = u"
  shows "xs = [u]"
proof (cases xs)
  case Nil
  with assms(2) [of u] show ?thesis by simp
next
  case (Cons x ys)
  with assms(2) [of x] have x: "x = u" by simp
  have "ys = []"
  proof (cases ys)
    case (Cons y zs)
    with \<open>xs = x # ys\<close> assms(2) [of y] have "y = u" by simp
    with Cons \<open>xs = x # ys\<close> x assms(1) show ?thesis by simp
  qed simp
  with Cons x show ?thesis by simp
qed

lemma users_singleton:
  assumes "wf_computation c"
    "\<And>x. x \<in> set (users c a) \<longleftrightarrow> x = u"
  shows "users c a = [u]"
  using distinct_users [OF assms(1)] assms(2) by (rule distinct_singleton)

lemma MatchSlice_SomeE:
  assumes "MatchSlice c h ar via ds partitions replicas = Some sp"
  obtains dsi groups src starts G count srci j split where
    "find_instruction c ds = Some dsi"
    "participant_groups ar partitions replicas = Some groups"
    "operands dsi = src # starts" "groupSizeAndCount groups = Some (G, count)"
    "find_instruction c src = Some srci" "opcode dsi = kDynamicSlice"
    "src = (case via of None \<Rightarrow> h | Some r \<Rightarrow> r)"
    "length (dimensions (shape dsi)) = length (dimensions (shape srci))"
    "length starts = length (dimensions (shape srci))"
    "legal_groups groups (participant_count (collective_mode ar) partitions replicas)"
    "filter (\<lambda>j. dimensions (shape srci) ! j \<noteq> dimensions (shape dsi) ! j)
       [0..<length (dimensions (shape srci))] = [j]"
    "(case via of None \<Rightarrow> Some j
      | Some r \<Rightarrow> unmodified_dim (dimensions (shape ar)) (dimensions (shape srci)) j)
       = Some split"
    "0 < dimensions (shape dsi) ! j"
    "dimensions (shape ar) ! split = dimensions (shape dsi) ! j * int G" "0 < G"
    "IsPerIdOffset c (collective_mode ar) partitions replicas groups G (dimensions (shape dsi) ! j)
       (starts ! j)"
    "sp = \<lparr>split_dim = int split,
           group_size = (dimensions (shape ar) ! split) sdiv (dimensions (shape dsi) ! j),
           dynamic_slice = ds\<rparr>"
proof -
  from assms obtain dsi groups where a: "find_instruction c ds = Some dsi"
    "participant_groups ar partitions replicas = Some groups"
    by (auto simp: MatchSlice_def split: option.splits)
  with assms obtain src starts G count where b: "operands dsi = src # starts"
    "groupSizeAndCount groups = Some (G, count)"
    by (auto simp: MatchSlice_def split: option.splits list.splits)
  with assms a obtain srci where c: "find_instruction c src = Some srci"
    by (auto simp: MatchSlice_def split: option.splits)
  let ?in = "dimensions (shape srci)" and ?out = "dimensions (shape dsi)"
  from assms a b c have d: "opcode dsi = kDynamicSlice"
    "src = (case via of None \<Rightarrow> h | Some r \<Rightarrow> r)"
    "length ?out = length ?in" "length starts = length ?in"
    "legal_groups groups (participant_count (collective_mode ar) partitions replicas)"
    by (auto simp: MatchSlice_def Let_def split: if_splits)
  with assms a b c obtain j where e:
    "filter (\<lambda>j. ?in ! j \<noteq> ?out ! j) [0..<length ?in] = [j]"
    by (auto simp: MatchSlice_def Let_def split: list.splits)
  with assms a b c d obtain split where f:
    "(case via of None \<Rightarrow> Some j
      | Some r \<Rightarrow> unmodified_dim (dimensions (shape ar)) ?in j) = Some split"
    by (auto simp: MatchSlice_def Let_def split: option.splits)
  with assms a b c d e have g: "0 < ?out ! j"
    "dimensions (shape ar) ! split = ?out ! j * int G" "0 < G"
    "IsPerIdOffset c (collective_mode ar) partitions replicas groups G (?out ! j) (starts ! j)"
    "sp = \<lparr>split_dim = int split,
           group_size = (dimensions (shape ar) ! split) sdiv (?out ! j),
           dynamic_slice = ds\<rparr>"
    by (auto simp: MatchSlice_def Let_def split: if_splits)
  from a b c d e f g show ?thesis by (rule that)
qed

lemma MatchSlice_SomeI:
  assumes
    "find_instruction c ds = Some dsi"
    "participant_groups ar partitions replicas = Some groups"
    "operands dsi = src # starts" "groupSizeAndCount groups = Some (G, count)"
    "find_instruction c src = Some srci" "opcode dsi = kDynamicSlice"
    "src = (case via of None \<Rightarrow> h | Some r \<Rightarrow> r)"
    "length (dimensions (shape dsi)) = length (dimensions (shape srci))"
    "length starts = length (dimensions (shape srci))"
    "legal_groups groups (participant_count (collective_mode ar) partitions replicas)"
    "filter (\<lambda>j. dimensions (shape srci) ! j \<noteq> dimensions (shape dsi) ! j)
       [0..<length (dimensions (shape srci))] = [j]"
    "(case via of None \<Rightarrow> Some j
      | Some r \<Rightarrow> unmodified_dim (dimensions (shape ar)) (dimensions (shape srci)) j)
       = Some split"
    "0 < dimensions (shape dsi) ! j"
    "dimensions (shape ar) ! split = dimensions (shape dsi) ! j * int G" "0 < G"
    "IsPerIdOffset c (collective_mode ar) partitions replicas groups G (dimensions (shape dsi) ! j)
       (starts ! j)"
  shows "MatchSlice c h ar via ds partitions replicas =
     Some \<lparr>split_dim = int split,
           group_size = (dimensions (shape ar) ! split) sdiv (dimensions (shape dsi) ! j),
           dynamic_slice = ds\<rparr>"
  using assms by (simp add: MatchSlice_def Let_def)

lemma collective_mode_replace_operand [simp]:
  "collective_mode (replace_operand old new i) = collective_mode i"
  by (simp add: collective_mode_def)

lemma participant_groups_replace_operand [simp]:
  "participant_groups (replace_operand old new i) = participant_groups i"
  by (auto simp: fun_eq_iff participant_groups_def Let_def split: CollectiveMode.splits)

lemma Rewritten_partsE:
  assumes R: "Rewritten c c' b ds rsh"
  obtains ars ar dsi src starts where
    "find_instruction c' (next_handle c) = Some ars" "opcode ars = kAllReduceScatter"
    "find_instruction c b = Some ar" "opcode ar = kAllReduce"
    "operands ars = operands (replace_operand ds (result_handle c rsh) ar)"
    "find_instruction c ds = Some dsi" "opcode dsi = kDynamicSlice"
    "operands dsi = src # starts" "dimensions (shape dsi) \<noteq> []"
    "src = (case rsh of None \<Rightarrow> b | Some r \<Rightarrow> r)"
    "users c b = [case rsh of None \<Rightarrow> ds | Some r \<Rightarrow> r]"
proof -
  from R obtain ars ar dsi src starts where B:
    "find_instruction c' (next_handle c) = Some ars" "opcode ars = kAllReduceScatter"
    "find_instruction c b = Some ar" "opcode ar = kAllReduce"
    "operands ars = operands (replace_operand ds (result_handle c rsh) ar)"
    "find_instruction c ds = Some dsi" "opcode dsi = kDynamicSlice"
    "operands dsi = src # starts" "dimensions (shape dsi) \<noteq> []"
    and C: "case rsh of
            None \<Rightarrow> src = b \<and> users c b = [ds]
          | Some r \<Rightarrow>
              src = r \<and> r \<noteq> b \<and> users c b = [r] \<and> users c r = [ds] \<and>
              (\<exists>ri rs. find_instruction c r = Some ri \<and> opcode ri = kReshape \<and>
                 find_instruction c' (Suc (next_handle c)) = Some rs \<and>
                 opcode rs = kReshape \<and> operands rs = [next_handle c])"
    unfolding Rewritten_def by blast
  from C have "src = (case rsh of None \<Rightarrow> b | Some r \<Rightarrow> r)"
    "users c b = [case rsh of None \<Rightarrow> ds | Some r \<Rightarrow> r]"
    by (cases rsh; simp)+
  with B show ?thesis by (rule that)
qed

lemma Rewritten_reshapeE:
  assumes R: "Rewritten c c' b ds (Some r)"
  obtains ri where "find_instruction c r = Some ri" "opcode ri = kReshape" "r \<noteq> b"
    "users c r = [ds]"
  using R unfolding Rewritten_def by auto

lemma Rewritten_wf:
  "Rewritten c c' b ds rsh \<Longrightarrow> wf_computation c"
  "Rewritten c c' b ds rsh \<Longrightarrow> wf_computation c'"
  by (simp_all add: Rewritten_def)

lemma well_typed_reshape:
  assumes "well_typed c" "find_instruction c x = Some i" "opcode i = kReshape"
  shows "length (operands i) = 1"
proof -
  from assms(2) have "(x, i) \<in> set (instructions c)" by (rule find_instruction_mem)
  with assms(1,3) show ?thesis unfolding well_typed_def by blast
qed

lemma stable_users:
  assumes R: "Rewritten c c' b ds rsh" and T: "well_typed c"
    and a: "find_instruction c a = Some a0" "a \<noteq> b" "a \<noteq> ds" "rsh \<noteq> Some a"
    and dims: "dimensions (shape a0) \<noteq> []"
    and u: "users c' a = [u]" "\<not> inert c' u"
  shows "users c a = [u]"
proof -
  let ?res = "result_handle c rsh" and ?n = "next_handle c"
  note wf = Rewritten_wf [OF R]
  from R have res: "find_instruction c ?res = None" by (rule Rewritten_result_fresh)
  with a(1) have ares: "a \<noteq> ?res" by auto
  have keep: "a \<in> set (operands (replace_operand ds ?res i))" if "a \<in> set (operands i)" for i
    using that a(3) by force
  from R obtain ars ar_b dsi_b src_b starts_b where B:
    "find_instruction c' ?n = Some ars" "opcode ars = kAllReduceScatter"
    "find_instruction c b = Some ar_b" "opcode ar_b = kAllReduce"
    "operands ars = operands (replace_operand ds ?res ar_b)"
    "find_instruction c ds = Some dsi_b" "opcode dsi_b = kDynamicSlice"
    "operands dsi_b = src_b # starts_b" "dimensions (shape dsi_b) \<noteq> []"
    "src_b = (case rsh of None \<Rightarrow> b | Some r \<Rightarrow> r)"
    "users c b = [case rsh of None \<Rightarrow> ds | Some r \<Rightarrow> r]"
    by (rule Rewritten_partsE)
  show ?thesis
  proof (rule users_singleton [OF wf(1)])
    fix x
    show "x \<in> set (users c a) \<longleftrightarrow> x = u"
    proof
      assume "x = u"
      from u(1) have "u \<in> set (users c' a)" by simp
      then obtain ui' where ui': "find_instruction c' u = Some ui'" "a \<in> set (operands ui')"
        unfolding users_iff [OF wf(2)] by blast
      from R ui'(1) u(2) obtain ui0 where ui0: "find_instruction c u = Some ui0"
        "ui' = replace_operand ds ?res ui0"
        by (rule Rewritten_old)
      from ui'(2) ui0(2) ares have "a \<in> set (operands ui0)"
        by (auto split: if_splits)
      with ui0(1) \<open>x = u\<close> show "x \<in> set (users c a)"
        unfolding users_iff [OF wf(1)] by blast
    next
      assume "x \<in> set (users c a)"
      then obtain xi where xi: "find_instruction c x = Some xi" "a \<in> set (operands xi)"
        unfolding users_iff [OF wf(1)] by blast
      consider (b) "x = b" | (ds) "x = ds" | (r) "rsh = Some x" "x \<noteq> b"
        | (kept) "x \<noteq> b" "x \<noteq> ds" "rsh \<noteq> Some x"
        by blast
      then show "x = u"
      proof cases
        case b
        with xi B(3) have "a \<in> set (operands ar_b)" by simp
        then have "a \<in> set (operands ars)" unfolding B(5) by (rule keep)
        with B(1) have "?n \<in> set (users c' a)"
          unfolding users_iff [OF wf(2)] by blast
        with u(1) have "u = ?n" by simp
        moreover have "inert c' ?n"
          using R find_instruction_fresh [OF wf(1)] by (rule Rewritten_inert_new)
        ultimately show ?thesis using u(2) by simp
      next
        case ds
        with xi B(6,8) have "a = src_b \<or> a \<in> set starts_b" by auto
        then show ?thesis
        proof
          assume "a = src_b"
          with B(10) a(2,4) show ?thesis by (cases rsh) auto
        next
          assume "a \<in> set starts_b"
          with B(8) have "a \<in> set (tl (operands dsi_b))" by simp
          with T B(6,7) have "dimensions (shape a0) = []"
            using a(1) by (rule well_typed_index)
          with dims show ?thesis ..
        qed
      next
        case r
        from R r(1) obtain ri where "find_instruction c x = Some ri" "opcode ri = kReshape"
          by (auto elim: Rewritten_reshapeE)
        with xi(1) have "opcode xi = kReshape" by auto
        with T xi(1) have "length (operands xi) = 1" by (rule well_typed_reshape)
        moreover from B(11) r(1) have "x \<in> set (users c b)" by simp
        with xi(1) have "b \<in> set (operands xi)"
          unfolding users_iff [OF wf(1)] by auto
        ultimately have "operands xi = [b]"
          by (cases "operands xi") auto
        with xi(2) a(2) show ?thesis by simp
      next
        case kept
        with R xi(1) have "find_instruction c' x = Some (replace_operand ds ?res xi)"
          by (rule Rewritten_kept)
        with keep [OF xi(2)] have "x \<in> set (users c' a)"
          unfolding users_iff [OF wf(2)] by blast
        with u(1) show ?thesis by simp
      qed
    qed
  qed
qed

lemma Rewritten_root:
  assumes R: "Rewritten c c' b ds rsh" and "root_instruction c' \<noteq> a" "a \<noteq> ds"
  shows "root_instruction c \<noteq> a"
  using assms unfolding Rewritten_def by auto

lemma filter_singleton_bound:
  "filter P [0..<n] = [j] \<Longrightarrow> j < n"
  using filter_eq_ConsD [of P "[0..<n]" j "[]"] by simp

lemma unmodified_dim_nonempty:
  "unmodified_dim ar_dims in_dims j = Some split \<Longrightarrow> ar_dims \<noteq> []"
  by (auto simp: unmodified_dim_def)

lemma stable_MatchAllReduceScatter:
  assumes R: "Rewritten c c' b ds rsh" and T: "well_typed c"
    and m: "MatchAllReduceScatter c' a partitions replicas multi True = Some sp"
  shows "MatchAllReduceScatter c a partitions replicas multi True = Some sp"
proof -
  let ?res = "result_handle c rsh" and ?n = "next_handle c"
  note wf = Rewritten_wf [OF R]
  from R have res: "find_instruction c ?res = None" by (rule Rewritten_result_fresh)
  from m show ?thesis
  proof (cases rule: MatchAllReduceScatter_cases)
    case (direct ar' u)
    from direct(1,2) have "\<not> inert c' a" by (simp add: inert_def)
    with R direct(1) obtain ar0 where ar0: "find_instruction c a = Some ar0"
      "ar' = replace_operand ds ?res ar0" "a \<noteq> b" "a \<noteq> ds" "rsh \<noteq> Some a"
      by (rule Rewritten_old)
    from direct(6) obtain dsi' groups src starts G count srci' j split where ms:
      "find_instruction c' u = Some dsi'"
      "participant_groups ar' partitions replicas = Some groups"
      "operands dsi' = src # starts" "groupSizeAndCount groups = Some (G, count)"
      "find_instruction c' src = Some srci'" "opcode dsi' = kDynamicSlice"
      "src = (case None of None \<Rightarrow> a | Some r \<Rightarrow> r)"
      "length (dimensions (shape dsi')) = length (dimensions (shape srci'))"
      "length starts = length (dimensions (shape srci'))"
      "legal_groups groups (participant_count (collective_mode ar') partitions replicas)"
      "filter (\<lambda>j. dimensions (shape srci') ! j \<noteq> dimensions (shape dsi') ! j)
         [0..<length (dimensions (shape srci'))] = [j]"
      "(case None :: nat option of None \<Rightarrow> Some j
        | Some r \<Rightarrow> unmodified_dim (dimensions (shape ar')) (dimensions (shape srci')) j)
         = Some split"
      "0 < dimensions (shape dsi') ! j"
      "dimensions (shape ar') ! split = dimensions (shape dsi') ! j * int G" "0 < G"
      "IsPerIdOffset c' (collective_mode ar') partitions replicas groups G
         (dimensions (shape dsi') ! j) (starts ! j)"
      "sp = \<lparr>split_dim = int split,
             group_size = (dimensions (shape ar') ! split) sdiv (dimensions (shape dsi') ! j),
             dynamic_slice = u\<rparr>"
      by (rule MatchSlice_SomeE) blast
    from ms(7) have src: "src = a" by simp
    with ms(5) direct(1) have srci: "srci' = ar'" by simp
    from ms(1,6) have nu: "\<not> inert c' u" by (simp add: inert_def)
    with R ms(1) obtain dsi0 where dsi0: "find_instruction c u = Some dsi0"
      "dsi' = replace_operand ds ?res dsi0" "u \<noteq> b" "u \<noteq> ds" "rsh \<noteq> Some u"
      by (rule Rewritten_old)
    from dsi0(2) ms(6) have op0: "opcode dsi0 = kDynamicSlice" by simp
    with R T dsi0(1) have nds: "ds \<notin> set (tl (operands dsi0))" by (rule Rewritten_index)
    from ms(3) dsi0(2) src obtain src0 starts0 where ops0: "operands dsi0 = src0 # starts0"
      "a = (if src0 = ds then ?res else src0)"
      "starts = map (\<lambda>x. if x = ds then ?res else x) starts0"
      by auto
    from ops0(2) ar0(1) res have src0: "src0 = a" by (auto split: if_splits)
    from nds ops0(1) have "map (\<lambda>x. if x = ds then ?res else x) starts0 = starts0"
      by (intro map_idI) auto
    with ops0(3) have starts: "starts = starts0" by simp
    from ms(11) have "j < length (dimensions (shape srci'))"
      by (rule filter_singleton_bound)
    with srci ar0(2) have dims: "dimensions (shape ar0) \<noteq> []" by auto
    from R T ar0(1,3,4,5) dims direct(4) nu have users: "users c a = [u]"
      by (rule stable_users)
    from R direct(3) ar0(4) have root: "root_instruction c \<noteq> a" by (rule Rewritten_root)
    from dsi0(1) op0 have nr: "\<not> has_opcode c u kReshape" by (simp add: has_opcode_def)
    from R T ms(16) have per: "IsPerIdOffset c (collective_mode ar') partitions replicas groups G
         (dimensions (shape dsi') ! j) (starts ! j)"
      by (rule stable_IsPerIdOffset)
    have "MatchSlice c a ar0 None u partitions replicas =
        Some \<lparr>split_dim = int split,
              group_size = (dimensions (shape ar0) ! split) sdiv (dimensions (shape dsi0) ! j),
              dynamic_slice = u\<rparr>"
    proof (rule MatchSlice_SomeI [where src = a and starts = starts0 and srci = ar0
          and groups = groups and G = G and count = count])
      show "find_instruction c u = Some dsi0" by (rule dsi0(1))
      show "participant_groups ar0 partitions replicas = Some groups"
        using ms(2) ar0(2) by simp
      show "operands dsi0 = a # starts0" using ops0(1) src0 by simp
      show "groupSizeAndCount groups = Some (G, count)" by (rule ms(4))
      show "find_instruction c a = Some ar0" by (rule ar0(1))
      show "opcode dsi0 = kDynamicSlice" by (rule op0)
      show "a = (case None of None \<Rightarrow> a | Some r \<Rightarrow> r)" by simp
      show "length (dimensions (shape dsi0)) = length (dimensions (shape ar0))"
        using ms(8) srci ar0(2) dsi0(2) by simp
      show "length starts0 = length (dimensions (shape ar0))"
        using ms(9) srci ar0(2) starts by simp
      show "legal_groups groups (participant_count (collective_mode ar0) partitions replicas)"
        using ms(10) ar0(2) by simp
      show "filter (\<lambda>j. dimensions (shape ar0) ! j \<noteq> dimensions (shape dsi0) ! j)
         [0..<length (dimensions (shape ar0))] = [j]"
        using ms(11) srci ar0(2) dsi0(2) by simp
      show "(case None of None \<Rightarrow> Some j
        | Some r \<Rightarrow> unmodified_dim (dimensions (shape ar0)) (dimensions (shape ar0)) j)
         = Some split"
        using ms(12) by simp
      show "0 < dimensions (shape dsi0) ! j" using ms(13) dsi0(2) by simp
      show "dimensions (shape ar0) ! split = dimensions (shape dsi0) ! j * int G"
        using ms(14) ar0(2) dsi0(2) by simp
      show "0 < G" by (rule ms(15))
      show "IsPerIdOffset c (collective_mode ar0) partitions replicas groups G
         (dimensions (shape dsi0) ! j) (starts0 ! j)"
        using per ar0(2) dsi0(2) starts by simp
    qed
    with ms(17) ar0(2) dsi0(2)
    have "MatchSlice c a ar0 None u partitions replicas = Some sp" by simp
    with ar0(1) direct(2) ar0(2) root users nr show ?thesis
      by (simp add: MatchAllReduceScatter_def)
  next
    case (reshape ar' u v)
    from reshape(1,2) have "\<not> inert c' a" by (simp add: inert_def)
    with R reshape(1) obtain ar0 where ar0: "find_instruction c a = Some ar0"
      "ar' = replace_operand ds ?res ar0" "a \<noteq> b" "a \<noteq> ds" "rsh \<noteq> Some a"
      by (rule Rewritten_old)
    from reshape(8) obtain dsi' groups src starts G count srci' j split where ms:
      "find_instruction c' v = Some dsi'"
      "participant_groups ar' partitions replicas = Some groups"
      "operands dsi' = src # starts" "groupSizeAndCount groups = Some (G, count)"
      "find_instruction c' src = Some srci'" "opcode dsi' = kDynamicSlice"
      "src = (case Some u of None \<Rightarrow> a | Some r \<Rightarrow> r)"
      "length (dimensions (shape dsi')) = length (dimensions (shape srci'))"
      "length starts = length (dimensions (shape srci'))"
      "legal_groups groups (participant_count (collective_mode ar') partitions replicas)"
      "filter (\<lambda>j. dimensions (shape srci') ! j \<noteq> dimensions (shape dsi') ! j)
         [0..<length (dimensions (shape srci'))] = [j]"
      "(case Some u of None \<Rightarrow> Some j
        | Some r \<Rightarrow> unmodified_dim (dimensions (shape ar')) (dimensions (shape srci')) j)
         = Some split"
      "0 < dimensions (shape dsi') ! j"
      "dimensions (shape ar') ! split = dimensions (shape dsi') ! j * int G" "0 < G"
      "IsPerIdOffset c' (collective_mode ar') partitions replicas groups G
         (dimensions (shape dsi') ! j) (starts ! j)"
      "sp = \<lparr>split_dim = int split,
             group_size = (dimensions (shape ar') ! split) sdiv (dimensions (shape dsi') ! j),
             dynamic_slice = v\<rparr>"
      by (rule MatchSlice_SomeE) blast
    from ms(7) have src: "src = u" by simp
    from reshape(5) ms(5) src have opu: "opcode srci' = kReshape"
      by (simp add: has_opcode_def)
    from reshape(4) have "u \<in> set (users c' a)" by simp
    with ms(5) src have au: "a \<in> set (operands srci')"
      unfolding users_iff [OF wf(2)] by simp
    have nu: "\<not> inert c' u"
    proof
      assume "inert c' u"
      with ms(5) src opu obtain z where "operands srci' = [z]"
        "has_opcode c' z kAllReduceScatter"
        by (auto simp: inert_def split: list.splits)
      with au reshape(1,2) show False by (simp add: has_opcode_def)
    qed
    with R ms(5) src obtain ui0 where ui0: "find_instruction c u = Some ui0"
      "srci' = replace_operand ds ?res ui0" "u \<noteq> b" "u \<noteq> ds" "rsh \<noteq> Some u"
      by auto (erule (1) Rewritten_old, simp)
    from ms(1,6) have nv: "\<not> inert c' v" by (simp add: inert_def)
    with R ms(1) obtain dsi0 where dsi0: "find_instruction c v = Some dsi0"
      "dsi' = replace_operand ds ?res dsi0" "v \<noteq> b" "v \<noteq> ds" "rsh \<noteq> Some v"
      by (rule Rewritten_old)
    from dsi0(2) ms(6) have op0: "opcode dsi0 = kDynamicSlice" by simp
    with R T dsi0(1) have nds: "ds \<notin> set (tl (operands dsi0))" by (rule Rewritten_index)
    from ms(3) dsi0(2) src obtain src0 starts0 where ops0: "operands dsi0 = src0 # starts0"
      "u = (if src0 = ds then ?res else src0)"
      "starts = map (\<lambda>x. if x = ds then ?res else x) starts0"
      by auto
    from ops0(2) ui0(1) res have src0: "src0 = u" by (auto split: if_splits)
    from nds ops0(1) have "map (\<lambda>x. if x = ds then ?res else x) starts0 = starts0"
      by (intro map_idI) auto
    with ops0(3) have starts: "starts = starts0" by simp
    from ms(11) have "j < length (dimensions (shape srci'))"
      by (rule filter_singleton_bound)
    with ui0(2) have udims: "dimensions (shape ui0) \<noteq> []" by auto
    from ms(12) have "dimensions (shape ar') \<noteq> []"
      by (auto dest: unmodified_dim_nonempty)
    with ar0(2) have dims: "dimensions (shape ar0) \<noteq> []" by simp
    from R T ar0(1,3,4,5) dims reshape(4) nu have users: "users c a = [u]"
      by (rule stable_users)
    from R T ui0(1,3,4,5) udims reshape(7) nv have users': "users c u = [v]"
      by (rule stable_users)
    from R reshape(3) ar0(4) have root: "root_instruction c \<noteq> a" by (rule Rewritten_root)
    from R reshape(6) ui0(4) have root': "root_instruction c \<noteq> u" by (rule Rewritten_root)
    from ui0(1,2) opu have isr: "has_opcode c u kReshape" by (simp add: has_opcode_def)
    from R T ms(16) have per: "IsPerIdOffset c (collective_mode ar') partitions replicas groups G
         (dimensions (shape dsi') ! j) (starts ! j)"
      by (rule stable_IsPerIdOffset)
    have "MatchSlice c a ar0 (Some u) v partitions replicas =
        Some \<lparr>split_dim = int split,
              group_size = (dimensions (shape ar0) ! split) sdiv (dimensions (shape dsi0) ! j),
              dynamic_slice = v\<rparr>"
    proof (rule MatchSlice_SomeI [where src = u and starts = starts0 and srci = ui0
          and groups = groups and G = G and count = count])
      show "find_instruction c v = Some dsi0" by (rule dsi0(1))
      show "participant_groups ar0 partitions replicas = Some groups"
        using ms(2) ar0(2) by simp
      show "operands dsi0 = u # starts0" using ops0(1) src0 by simp
      show "groupSizeAndCount groups = Some (G, count)" by (rule ms(4))
      show "find_instruction c u = Some ui0" by (rule ui0(1))
      show "opcode dsi0 = kDynamicSlice" by (rule op0)
      show "u = (case Some u of None \<Rightarrow> a | Some r \<Rightarrow> r)" by simp
      show "length (dimensions (shape dsi0)) = length (dimensions (shape ui0))"
        using ms(8) ui0(2) dsi0(2) by simp
      show "length starts0 = length (dimensions (shape ui0))"
        using ms(9) ui0(2) starts by simp
      show "legal_groups groups (participant_count (collective_mode ar0) partitions replicas)"
        using ms(10) ar0(2) by simp
      show "filter (\<lambda>j. dimensions (shape ui0) ! j \<noteq> dimensions (shape dsi0) ! j)
         [0..<length (dimensions (shape ui0))] = [j]"
        using ms(11) ui0(2) dsi0(2) by simp
      show "(case Some u of None \<Rightarrow> Some j
        | Some r \<Rightarrow> unmodified_dim (dimensions (shape ar0)) (dimensions (shape ui0)) j)
         = Some split"
        using ms(12) ar0(2) ui0(2) by simp
      show "0 < dimensions (shape dsi0) ! j" using ms(13) dsi0(2) by simp
      show "dimensions (shape ar0) ! split = dimensions (shape dsi0) ! j * int G"
        using ms(14) ar0(2) dsi0(2) by simp
      show "0 < G" by (rule ms(15))
      show "IsPerIdOffset c (collective_mode ar0) partitions replicas groups G
         (dimensions (shape dsi0) ! j) (starts0 ! j)"
        using per ar0(2) dsi0(2) starts by simp
    qed
    with ms(17) ar0(2) dsi0(2)
    have "MatchSlice c a ar0 (Some u) v partitions replicas = Some sp" by simp
    with ar0(1) reshape(2) ar0(2) root users isr root' users' show ?thesis
      by (simp add: MatchAllReduceScatter_def)
  qed
qed

lemma Rewritten_find_cases:
  assumes R: "Rewritten c c' b ds rsh" and f: "find_instruction c' h = Some i'"
  obtains (old) i0 where "find_instruction c h = Some i0"
      "i' = replace_operand ds (result_handle c rsh) i0"
    | (ars) ar where "find_instruction c h = None" "opcode i' = kAllReduceScatter"
      "find_instruction c b = Some ar"
      "operands i' = operands (replace_operand ds (result_handle c rsh) ar)"
    | (rs) "find_instruction c h = None" "opcode i' = kReshape"
      "operands i' = [next_handle c]"
proof (cases "find_instruction c h")
  case (Some i0)
  with R have "find_instruction c' h =
      (if h = b \<or> h = ds \<or> rsh = Some h then None
       else Some (replace_operand ds (result_handle c rsh) i0))"
    unfolding Rewritten_def by blast
  with f Some old show ?thesis by (auto split: if_splits)
next
  case None
  with R f have h: "h = next_handle c \<or> h = result_handle c rsh"
    unfolding Rewritten_def by (metis option.distinct(1))
  from R obtain ars0 ar where B:
    "find_instruction c' (next_handle c) = Some ars0" "opcode ars0 = kAllReduceScatter"
    "find_instruction c b = Some ar"
    "operands ars0 = operands (replace_operand ds (result_handle c rsh) ar)"
    by (rule Rewritten_partsE)
  show ?thesis
  proof (cases "h = next_handle c")
    case True
    with f B None ars show ?thesis by simp
  next
    case False
    with h obtain r where r: "rsh = Some r" "h = Suc (next_handle c)"
      by (cases rsh) (auto simp: result_handle_def)
    with R obtain rs0 where "find_instruction c' (Suc (next_handle c)) = Some rs0"
      "opcode rs0 = kReshape" "operands rs0 = [next_handle c]"
      unfolding Rewritten_def by auto
    with f r None rs show ?thesis by simp
  qed
qed

lemma well_typed_operand:
  assumes "well_typed c" "find_instruction c x = Some i" "y \<in> set (operands i)"
  shows "y < next_handle c"
proof -
  from assms(2) have "(x, i) \<in> set (instructions c)" by (rule find_instruction_mem)
  with assms(1,3) show ?thesis unfolding well_typed_def by blast
qed

lemma result_handle_ge: "next_handle c \<le> result_handle c rsh"
  by (cases rsh) (simp_all add: result_handle_def)

lemma Rewritten_well_typed:
  assumes R: "Rewritten c c' b ds rsh" and T: "well_typed c"
  shows "well_typed c'"
proof -
  let ?res = "result_handle c rsh" and ?n = "next_handle c"
  note wf = Rewritten_wf [OF R]
  from R have nh: "next_handle c' = Suc ?res" unfolding Rewritten_def by simp
  have bound: "x < Suc ?res"
    if "find_instruction c k = Some i0" "x \<in> set (operands (replace_operand ds ?res i0))"
    for k i0 x
  proof -
    from that(2) obtain x0 where x0: "x0 \<in> set (operands i0)"
      "x = (if x0 = ds then ?res else x0)"
      by auto
    from T that(1) x0(1) have "x0 < ?n" by (rule well_typed_operand)
    with x0(2) result_handle_ge [of c rsh] show ?thesis by (auto split: if_splits)
  qed
  have "(\<forall>x \<in> set (operands i'). x < next_handle c') \<and>
        (opcode i' = kReshape \<longrightarrow> length (operands i') = 1) \<and>
        (opcode i' = kDynamicSlice \<longrightarrow>
           (\<forall>y \<in> set (tl (operands i')).
              case find_instruction c' y of
                None \<Rightarrow> True
              | Some yi \<Rightarrow> dimensions (shape yi) = []))"
    if f: "find_instruction c' h = Some i'" for h i'
    using R f
  proof (cases rule: Rewritten_find_cases)
    case (old i0)
    have 1: "\<forall>x \<in> set (operands i'). x < next_handle c'"
      unfolding nh old(2) using bound [OF old(1)] by blast
    have 2: "length (operands i') = 1" if "opcode i' = kReshape"
    proof -
      from that old(2) have "opcode i0 = kReshape" by simp
      with T old(1) have "length (operands i0) = 1" by (rule well_typed_reshape)
      with old(2) show ?thesis by simp
    qed
    have 3: "case find_instruction c' y of None \<Rightarrow> True
             | Some yi \<Rightarrow> dimensions (shape yi) = []"
      if dsl: "opcode i' = kDynamicSlice" and y: "y \<in> set (tl (operands i'))" for y
    proof (cases "find_instruction c' y")
      case None
      then show ?thesis by simp
    next
      case (Some yi')
      from dsl old(2) have op0: "opcode i0 = kDynamicSlice" by simp
      with R T old(1) have nds: "ds \<notin> set (tl (operands i0))" by (rule Rewritten_index)
      have "tl (operands i') = map (\<lambda>x. if x = ds then ?res else x) (tl (operands i0))"
        unfolding old(2) by (simp add: map_tl)
      also from nds have "\<dots> = tl (operands i0)" by (intro map_idI) auto
      finally have y0: "y \<in> set (tl (operands i0))" using y by simp
      then have "y \<in> set (operands i0)" by (cases "operands i0") auto
      with T old(1) have ylt: "y < ?n" by (rule well_typed_operand)
      from R Some show ?thesis
      proof (cases rule: Rewritten_find_cases)
        case (old yi0)
        from T \<open>find_instruction c h = Some i0\<close> op0 y0 old(1)
        have "dimensions (shape yi0) = []" by (rule well_typed_index)
        with Some old(2) show ?thesis by simp
      next
        case (ars ar)
        from R Some ars(1) have "y = ?n \<or> y = ?res"
          unfolding Rewritten_def by (metis option.distinct(1))
        with ylt result_handle_ge [of c rsh] show ?thesis by auto
      next
        case rs
        from R Some rs(1) have "y = ?n \<or> y = ?res"
          unfolding Rewritten_def by (metis option.distinct(1))
        with ylt result_handle_ge [of c rsh] show ?thesis by auto
      qed
    qed
    from 1 2 3 show ?thesis by blast
  next
    case (ars ar)
    have "\<forall>x \<in> set (operands i'). x < next_handle c'"
      unfolding nh ars(4) using bound [OF ars(3)] by blast
    with ars(2) show ?thesis by simp
  next
    case rs
    with nh result_handle_ge [of c rsh] show ?thesis by simp
  qed
  then have "\<forall>(h, i') \<in> set (instructions c').
        (\<forall>x \<in> set (operands i'). x < next_handle c') \<and>
        (opcode i' = kReshape \<longrightarrow> length (operands i') = 1) \<and>
        (opcode i' = kDynamicSlice \<longrightarrow>
           (\<forall>y \<in> set (tl (operands i')).
              case find_instruction c' y of
                None \<Rightarrow> True
              | Some yi \<Rightarrow> dimensions (shape yi) = []))"
    unfolding find_instruction_iff [OF wf(2)] by blast
  with wf(2) show ?thesis unfolding well_typed_def by blast
qed

lemma well_typed_wf: "well_typed c \<Longrightarrow> wf_computation c"
  by (simp add: well_typed_def)

lemma Run_instruction_settled:
  assumes T: "well_typed (comp st)"
    and run: "Run_instruction MatchAllReduceScatter partitions replicas h st = (None, st')"
    and inv: "\<And>y. y \<notin> set (h # hs) \<Longrightarrow>
                MatchAllReduceScatter (comp st) y partitions replicas False True = None"
  shows "well_typed (comp st') \<and>
         IsFusionComputation (comp st') = IsFusionComputation (comp st) \<and>
         (\<forall>y. y \<notin> set hs \<longrightarrow>
            MatchAllReduceScatter (comp st') y partitions replicas False True = None)"
proof (cases "MatchAllReduceScatter (comp st) h partitions replicas False True")
  case None
  then have "Run_instruction MatchAllReduceScatter partitions replicas h st = (None, st)"
    by (auto simp: Run_instruction_def split: option.splits)
  with run have st: "st' = st" by simp
  have "MatchAllReduceScatter (comp st) y partitions replicas False True = None"
    if "y \<notin> set hs" for y
    using that inv [of y] None by (cases "y = h") auto
  with T st show ?thesis by simp
next
  case (Some sp)
  then obtain ar where ar: "find_instruction (comp st) h = Some ar" "opcode ar = kAllReduce"
    by (cases rule: MatchAllReduceScatter_cases) auto
  with run Some have rw: "Rewrite h ar sp st = (None, st')"
    by (simp add: Run_instruction_def)
  from well_typed_wf [OF T] ar(1) Some rw
  obtain rsh where R: "Rewritten (comp st) (comp st') h (dynamic_slice sp) rsh"
    by (auto dest: Rewrite_Rewritten)
  from R T have "well_typed (comp st')" by (rule Rewritten_well_typed)
  moreover from R have "IsFusionComputation (comp st') = IsFusionComputation (comp st)"
    unfolding Rewritten_def by simp
  moreover have "MatchAllReduceScatter (comp st') y partitions replicas False True = None"
    if "y \<notin> set hs" for y
  proof (cases "y = h")
    case True
    from R ar(1) have "find_instruction (comp st') h = None"
      unfolding Rewritten_def by auto
    with True show ?thesis by (simp add: MatchAllReduceScatter_def)
  next
    case False
    with that have "MatchAllReduceScatter (comp st) y partitions replicas False True = None"
      by (intro inv) simp
    with stable_MatchAllReduceScatter [OF R T] show ?thesis
      by (cases "MatchAllReduceScatter (comp st') y partitions replicas False True") auto
  qed
  ultimately show ?thesis by blast
qed

lemma Run_instructions_settled:
  assumes "well_typed (comp st)"
    and "Run_instructions MatchAllReduceScatter partitions replicas hs st = (None, st')"
    and "\<And>y. y \<notin> set hs \<Longrightarrow>
           MatchAllReduceScatter (comp st) y partitions replicas False True = None"
  shows "well_typed (comp st') \<and>
         IsFusionComputation (comp st') = IsFusionComputation (comp st) \<and>
         (\<forall>y. MatchAllReduceScatter (comp st') y partitions replicas False True = None)"
  using assms
proof (induction hs arbitrary: st)
  case Nil
  then show ?case by simp
next
  case (Cons h hs)
  from Cons.prems(2) obtain st1 where
    step: "Run_instruction MatchAllReduceScatter partitions replicas h st = (None, st1)"
    and rest: "Run_instructions MatchAllReduceScatter partitions replicas hs st1 = (None, st')"
    by (auto split: prod.splits option.splits)
  from Cons.prems(1) step Cons.prems(3)
  have 1: "well_typed (comp st1) \<and>
         IsFusionComputation (comp st1) = IsFusionComputation (comp st) \<and>
         (\<forall>y. y \<notin> set hs \<longrightarrow>
            MatchAllReduceScatter (comp st1) y partitions replicas False True = None)"
    by (rule Run_instruction_settled)
  then have "well_typed (comp st') \<and>
         IsFusionComputation (comp st') = IsFusionComputation (comp st1) \<and>
         (\<forall>y. MatchAllReduceScatter (comp st') y partitions replicas False True = None)"
    using rest by (intro Cons.IH) auto
  with 1 show ?case by simp
qed

lemma fold_visit_mono:
  assumes "\<And>h v. set v \<subseteq> set (f h v)"
  shows "set v \<subseteq> set (fold f hs v)"
proof (induction hs arbitrary: v)
  case Nil
  show ?case by simp
next
  case (Cons h hs)
  have "set v \<subseteq> set (f h v)" by (rule assms)
  also have "\<dots> \<subseteq> set (fold f hs (f h v))" by (rule Cons.IH)
  finally show ?case by simp
qed

lemma post_order_visit_mono: "set visited \<subseteq> set (post_order_visit fuel c h visited)"
proof (induction fuel arbitrary: h visited)
  case 0
  show ?case by simp
next
  case (Suc fuel)
  have "set visited \<subseteq> set (fold (post_order_visit fuel c) hs visited)" for hs
    by (rule fold_visit_mono) (rule Suc.IH)
  then show ?case by (auto split: option.splits)
qed

lemma post_order_visit_adds:
  "find_instruction c h \<noteq> None \<Longrightarrow> h \<in> set (post_order_visit (Suc fuel) c h visited)"
  by (auto split: option.splits)

lemma fold_post_order_visit_all:
  assumes "h \<in> set hs" "find_instruction c h \<noteq> None"
  shows "h \<in> set (fold (post_order_visit (Suc fuel) c) hs visited)"
  using assms(1)
proof (induction hs arbitrary: visited)
  case Nil
  then show ?case by simp
next
  case (Cons x xs)
  show ?case
  proof (cases "h = x")
    case True
    from assms(2) have "h \<in> set (post_order_visit (Suc fuel) c h visited)"
      by (rule post_order_visit_adds)
    with True have "h \<in> set (post_order_visit (Suc fuel) c x visited)"
      by (simp del: post_order_visit.simps)
    also have "\<dots> \<subseteq> set (fold (post_order_visit (Suc fuel) c) xs
        (post_order_visit (Suc fuel) c x visited))"
      by (rule fold_visit_mono) (rule post_order_visit_mono)
    finally show ?thesis by (simp del: post_order_visit.simps)
  next
    case False
    with Cons.prems have "h \<in> set xs" by simp
    then show ?thesis by (simp add: Cons.IH del: post_order_visit.simps)
  qed
qed

lemma MakeInstructionPostOrder_complete:
  assumes "find_instruction c h = Some i"
  shows "h \<in> set (MakeInstructionPostOrder c)"
proof -
  from assms have mem: "(h, i) \<in> set (instructions c)" by (rule find_instruction_mem)
  then have "instructions c \<noteq> []" by auto
  then obtain fuel where fuel: "length (instructions c) = Suc fuel"
    by (cases "instructions c") auto
  from mem have "h \<in> set (map fst (instructions c))" by force
  with assms show ?thesis
    unfolding MakeInstructionPostOrder_def fuel
    by (intro fold_post_order_visit_all) auto
qed

lemma Run_computations_settled:
  assumes "distinct ks"
    and "\<And>k. k \<in> set ks \<Longrightarrow> k < length (computations m) \<Longrightarrow>
           well_typed (computations m ! k)"
    and "Run_computations MatchAllReduceScatter partitions replicas ks m next chg
           = (Inr chg', m')"
  shows "length (computations m') = length (computations m) \<and> config m' = config m \<and>
         (\<forall>k < length (computations m).
            IsFusionComputation (computations m' ! k)
              = IsFusionComputation (computations m ! k)) \<and>
         (\<forall>k. k \<notin> set ks \<longrightarrow> computations m' ! k = computations m ! k) \<and>
         (\<forall>k \<in> set ks. k < length (computations m) \<longrightarrow>
            (\<forall>y. MatchAllReduceScatter (computations m' ! k) y partitions replicas
                   False True = None))"
  using assms
proof (induction ks arbitrary: m "next" chg)
  case Nil
  then show ?case by simp
next
  case (Cons k ks)
  show ?case
  proof (cases "length (computations m) \<le> k")
    case True
    with Cons.prems(3)
    have run: "Run_computations MatchAllReduceScatter partitions replicas ks m next chg
                 = (Inr chg', m')"
      by simp
    from Cons.prems(1) have "distinct ks" by simp
    from Cons.IH [OF this _ run] Cons.prems(2)
    have "length (computations m') = length (computations m) \<and> config m' = config m \<and>
         (\<forall>k < length (computations m).
            IsFusionComputation (computations m' ! k)
              = IsFusionComputation (computations m ! k)) \<and>
         (\<forall>k. k \<notin> set ks \<longrightarrow> computations m' ! k = computations m ! k) \<and>
         (\<forall>k \<in> set ks. k < length (computations m) \<longrightarrow>
            (\<forall>y. MatchAllReduceScatter (computations m' ! k) y partitions replicas
                   False True = None))"
      by simp
    with True show ?thesis by auto
  next
    case False
    let ?c = "computations m ! k"
    let ?st = "\<lparr>comp = ?c, next_channel_id = next, changed = chg\<rparr>"
    obtain res st where inner:
      "Run_instructions MatchAllReduceScatter partitions replicas
         (MakeInstructionPostOrder ?c) ?st = (res, st)"
      by (cases "Run_instructions MatchAllReduceScatter partitions replicas
         (MakeInstructionPostOrder ?c) ?st")
    let ?m2 = "m\<lparr>computations := (computations m)[k := comp st]\<rparr>"
    from Cons.prems(3) False inner have res: "res = None"
      by (cases res) auto
    with Cons.prems(3) False inner
    have run: "Run_computations MatchAllReduceScatter partitions replicas ks ?m2
                 (next_channel_id st) (changed st) = (Inr chg', m')"
      by simp
    from False Cons.prems(2) have T: "well_typed (comp ?st)" by simp
    have "well_typed (comp st) \<and>
         IsFusionComputation (comp st) = IsFusionComputation (comp ?st) \<and>
         (\<forall>y. MatchAllReduceScatter (comp st) y partitions replicas False True = None)"
      using T inner [unfolded res]
    proof (rule Run_instructions_settled)
      fix y
      assume "y \<notin> set (MakeInstructionPostOrder ?c)"
      then have "find_instruction (comp ?st) y = None"
        by (cases "find_instruction ?c y")
          (auto dest: MakeInstructionPostOrder_complete)
      then show "MatchAllReduceScatter (comp ?st) y partitions replicas False True = None"
        by (simp add: MatchAllReduceScatter_def)
    qed
    then have st: "IsFusionComputation (comp st) = IsFusionComputation ?c"
      "\<And>y. MatchAllReduceScatter (comp st) y partitions replicas False True = None"
      by simp_all
    from Cons.prems(1) have dk: "distinct ks" "k \<notin> set ks" by simp_all
    have "length (computations m') = length (computations ?m2) \<and> config m' = config ?m2 \<and>
         (\<forall>k < length (computations ?m2).
            IsFusionComputation (computations m' ! k)
              = IsFusionComputation (computations ?m2 ! k)) \<and>
         (\<forall>k. k \<notin> set ks \<longrightarrow> computations m' ! k = computations ?m2 ! k) \<and>
         (\<forall>k \<in> set ks. k < length (computations ?m2) \<longrightarrow>
            (\<forall>y. MatchAllReduceScatter (computations m' ! k) y partitions replicas
                   False True = None))"
    proof (rule Cons.IH [OF dk(1) _ run])
      fix j
      assume "j \<in> set ks" "j < length (computations ?m2)"
      with dk(2) have "j \<noteq> k" "j \<in> set (k # ks)" "j < length (computations m)" by auto
      with Cons.prems(2) [of j] show "well_typed (computations ?m2 ! j)" by simp
    qed
    then have IH: "length (computations m') = length (computations m)" "config m' = config m"
      "\<And>j. j < length (computations m) \<Longrightarrow>
          IsFusionComputation (computations m' ! j)
            = IsFusionComputation ((computations m)[k := comp st] ! j)"
      "\<And>j. j \<notin> set ks \<Longrightarrow> computations m' ! j = (computations m)[k := comp st] ! j"
      "\<And>j y. j \<in> set ks \<Longrightarrow> j < length (computations m) \<Longrightarrow>
          MatchAllReduceScatter (computations m' ! j) y partitions replicas False True = None"
      by simp_all
    from False have kl: "k < length (computations m)" by simp
    have a: "IsFusionComputation (computations m' ! j)
              = IsFusionComputation (computations m ! j)"
      if "j < length (computations m)" for j
      using IH(3) [OF that] st(1) kl by (cases "j = k") simp_all
    have b: "computations m' ! j = computations m ! j" if "j \<notin> set (k # ks)" for j
      using IH(4) [of j] that by simp
    have c: "MatchAllReduceScatter (computations m' ! j) y partitions replicas False True
               = None"
      if "j \<in> set (k # ks)" "j < length (computations m)" for j y
    proof (cases "j = k")
      case True
      with IH(4) [of k] dk(2) kl have "computations m' ! j = comp st" by simp
      with st(2) show ?thesis by simp
    next
      case False
      with that IH(5) show ?thesis by simp
    qed
    from IH(1,2) a b c show ?thesis by blast
  qed
qed

lemma distinct_MakeNonfusionComputations: "distinct (MakeNonfusionComputations m)"
  by (simp add: MakeNonfusionComputations_def)

text \<open>
  C6. Idempotence, with the matcher modelled from the spec. Take a module whose non-fusion
  computations are well typed and a run of the pass on it that returns a value. Then a
  second run returns \<open>changed = false\<close> and leaves the module as the first run made it,
  and no all-reduce left in a non-fusion computation is matched.
\<close>

theorem pass_idempotent:
  assumes wt: "\<forall>k < length (computations m).
                 \<not> IsFusionComputation (computations m ! k) \<longrightarrow>
                 well_typed (computations m ! k)"
    and run: "Run MatchAllReduceScatter m = (Inr chg, m1)"
  shows "Run MatchAllReduceScatter m1 = (Inr False, m1) \<and>
         (\<forall>k < length (computations m1).
            \<not> IsFusionComputation (computations m1 ! k) \<longrightarrow>
            (\<forall>(h, i) \<in> set (instructions (computations m1 ! k)).
               opcode i = kAllReduce \<longrightarrow>
               MatchAllReduceScatter (computations m1 ! k) h (num_partitions (config m1))
                 (replica_count (config m1)) False True = None))"
proof -
  let ?P = "num_partitions (config m)" and ?R = "replica_count (config m)"
  let ?ks = "MakeNonfusionComputations m"
  from run have run': "Run_computations MatchAllReduceScatter ?P ?R ?ks m (NextChannelId m)
      False = (Inr chg, m1)"
    by (simp add: Run_def)
  have "length (computations m1) = length (computations m) \<and> config m1 = config m \<and>
         (\<forall>k < length (computations m).
            IsFusionComputation (computations m1 ! k)
              = IsFusionComputation (computations m ! k)) \<and>
         (\<forall>k. k \<notin> set ?ks \<longrightarrow> computations m1 ! k = computations m ! k) \<and>
         (\<forall>k \<in> set ?ks. k < length (computations m) \<longrightarrow>
            (\<forall>y. MatchAllReduceScatter (computations m1 ! k) y ?P ?R False True = None))"
    using distinct_MakeNonfusionComputations _ run'
  proof (rule Run_computations_settled)
    fix k
    assume "k \<in> set ?ks" "k < length (computations m)"
    with wt show "well_typed (computations m ! k)"
      by (simp add: MakeNonfusionComputations_mem)
  qed
  then have F: "length (computations m1) = length (computations m)" "config m1 = config m"
    "\<And>k. k < length (computations m) \<Longrightarrow>
        IsFusionComputation (computations m1 ! k) = IsFusionComputation (computations m ! k)"
    "\<And>k y. k \<in> set ?ks \<Longrightarrow>
        MatchAllReduceScatter (computations m1 ! k) y ?P ?R False True = None"
    by (simp_all add: MakeNonfusionComputations_mem)
  have settled: "MatchAllReduceScatter (computations m1 ! k) y (num_partitions (config m1))
      (replica_count (config m1)) False True = None"
    if "k < length (computations m1)" "\<not> IsFusionComputation (computations m1 ! k)" for k y
  proof -
    from that F(1,3) have "k \<in> set ?ks" by (simp add: MakeNonfusionComputations_mem)
    with F(2,4) show ?thesis by simp
  qed
  have "Run_computations MatchAllReduceScatter (num_partitions (config m1))
      (replica_count (config m1)) (MakeNonfusionComputations m1) m1 (NextChannelId m1) False
      = (Inr False, m1)"
    by (rule Run_computations_skip) (simp add: settled MakeNonfusionComputations_mem)
  then have "Run MatchAllReduceScatter m1 = (Inr False, m1)" by (simp add: Run_def)
  with settled show ?thesis by blast
qed

theorem pass_idempotent_witness:
  "fst (Run MatchAllReduceScatter AllReplicasWithReshape) = Inr True \<and>
   Run MatchAllReduceScatter (snd (Run MatchAllReduceScatter AllReplicasWithReshape))
     = (Inr False, snd (Run MatchAllReduceScatter AllReplicasWithReshape))"
proof -
  have "list_all (\<lambda>c. IsFusionComputation c \<or> well_typed c)
          (computations AllReplicasWithReshape)"
    by code_simp
  then have wt: "\<forall>k < length (computations AllReplicasWithReshape).
      \<not> IsFusionComputation (computations AllReplicasWithReshape ! k) \<longrightarrow>
      well_typed (computations AllReplicasWithReshape ! k)"
    unfolding list_all_length by blast
  have chg: "fst (Run MatchAllReduceScatter AllReplicasWithReshape) = Inr True"
    by code_simp
  then have "Run MatchAllReduceScatter AllReplicasWithReshape
      = (Inr True, snd (Run MatchAllReduceScatter AllReplicasWithReshape))"
    by (simp add: prod_eq_iff)
  with wt have "Run MatchAllReduceScatter (snd (Run MatchAllReduceScatter AllReplicasWithReshape))
     = (Inr False, snd (Run MatchAllReduceScatter AllReplicasWithReshape))"
    by (rule pass_idempotent [THEN conjunct1])
  with chg show ?thesis by simp
qed


subsection \<open>Offset tables that are not accepted\<close>













subsection \<open>No partial rewrite\<close>





end
